theory Spec2Isabelle
  imports Complex_Main "HOL-Library.Char_ord" "HOL-Library.List_Lexorder" "HOL-Library.Multiset"
begin

section \<open>Host-language values\<close>

text \<open>
  The script is JavaScript. Numbers are modelled as reals (IEEE rounding is idealised
  away). A value that may be \<^verbatim>\<open>undefined\<close> or \<^verbatim>\<open>NaN\<close> is an option, \<open>None\<close>
  standing for both: every comparison with it is false. The only exception the modelled
  code can raise is a \<^verbatim>\<open>TypeError\<close> (reading a property of \<^verbatim>\<open>undefined\<close>, or
  \<^verbatim>\<open>new URL\<close> on a malformed URL).
\<close>

datatype error = TypeError

type_synonym point = "real list"

text \<open>\<^verbatim>\<open>xs[i]\<close>: \<^verbatim>\<open>undefined\<close> out of range.\<close>

definition js_index :: "'a list \<Rightarrow> nat \<Rightarrow> 'a option" where
  "js_index xs i = (if i < length xs then Some (xs ! i) else None)"

text \<open>\<^verbatim>\<open>a < b\<close> and \<^verbatim>\<open>a >= b\<close> on numbers that may be \<^verbatim>\<open>undefined\<close> or \<^verbatim>\<open>NaN\<close>.\<close>

fun js_lt :: "real option \<Rightarrow> real option \<Rightarrow> bool" where
  "js_lt (Some a) (Some b) = (a < b)"
| "js_lt _ _ = False"

fun js_ge :: "real option \<Rightarrow> real option \<Rightarrow> bool" where
  "js_ge (Some a) (Some b) = (a \<ge> b)"
| "js_ge _ _ = False"

text \<open>
  \<^verbatim>\<open>Math.min(...values)\<close> and \<^verbatim>\<open>Math.max(...values)\<close>: \<^verbatim>\<open>NaN\<close> as soon as one
  argument is \<^verbatim>\<open>undefined\<close>. On no argument at all JavaScript answers an infinity,
  which the model does not represent; \<open>buildTree\<close> only passes two values or more.
\<close>

fun Math_min :: "real option list \<Rightarrow> real option" where
  "Math_min [] = None"
| "Math_min [v] = v"
| "Math_min (v # vs) =
     (case (v, Math_min vs) of (Some a, Some b) \<Rightarrow> Some (min a b) | _ \<Rightarrow> None)"

fun Math_max :: "real option list \<Rightarrow> real option" where
  "Math_max [] = None"
| "Math_max [v] = v"
| "Math_max (v # vs) =
     (case (v, Math_max vs) of (Some a, Some b) \<Rightarrow> Some (max a b) | _ \<Rightarrow> None)"

text \<open>
  \<^verbatim>\<open>Math.random()\<close>: the host's generator is a sequence \<open>rnd\<close> of reals and a
  counter of the draws made so far; the \<open>i\<close>-th call returns \<open>rnd i\<close>. The host
  promises \<open>0 \<le> rnd i < 1\<close>.
\<close>

definition random_ok :: "(nat \<Rightarrow> real) \<Rightarrow> bool" where
  "random_ok rnd = (\<forall>i. 0 \<le> rnd i \<and> rnd i < 1)"

section \<open>The isolation forest (class IsolationForest)\<close>

text \<open>
  A tree is the object \<open>buildTree\<close> returns: \<^verbatim>\<open>{ size }\<close> for a leaf,
  \<^verbatim>\<open>{ feature, splitValue, left, right }\<close> for an inner node.
\<close>

datatype itree = Leaf nat | Node nat "real option" itree itree

record IsolationForest =
  numTrees :: nat
  sampleSize :: nat
  maxDepth :: nat
  trees :: "itree list"

text \<open>\<^verbatim>\<open>new IsolationForest(numTrees, sampleSize, maxDepth)\<close>.\<close>

definition new_IsolationForest :: "nat \<Rightarrow> nat \<Rightarrow> nat \<Rightarrow> IsolationForest" where
  "new_IsolationForest n s d = \<lparr>numTrees = n, sampleSize = s, maxDepth = d, trees = []\<rparr>"

text \<open>
  \<open>getRandomSample\<close>: \<open>sampleSize\<close> draws with replacement,
  \<^verbatim>\<open>data[Math.floor(Math.random() * data.length)]\<close> each. On an empty dataset every
  entry of the sample is \<^verbatim>\<open>undefined\<close>.
\<close>

fun getRandomSample ::
  "(nat \<Rightarrow> real) \<Rightarrow> point list \<Rightarrow> nat \<Rightarrow> nat \<Rightarrow> point option list \<times> nat" where
  "getRandomSample rnd data 0 i = ([], i)"
| "getRandomSample rnd data (Suc k) i =
     (let x = js_index data (nat \<lfloor>rnd i * real (length data)\<rfloor>);
          (rest, j) = getRandomSample rnd data k (Suc i)
      in (x # rest, j))"

text \<open>
  \<open>getRandomValue\<close>: \<^verbatim>\<open>data.map(point => point[feature])\<close> raises on an
  \<^verbatim>\<open>undefined\<close> point; the result is \<^verbatim>\<open>min + Math.random() * (max - min)\<close>, with
  \<open>r\<close> the draw.
\<close>

fun field_values :: "point option list \<Rightarrow> nat \<Rightarrow> error + real option list" where
  "field_values [] feature = Inr []"
| "field_values (None # ps) feature = Inl TypeError"
| "field_values (Some p # ps) feature =
     (case field_values ps feature of
        Inl e \<Rightarrow> Inl e
      | Inr vs \<Rightarrow> Inr (js_index p feature # vs))"

definition getRandomValue :: "point option list \<Rightarrow> nat \<Rightarrow> real \<Rightarrow> error + real option" where
  "getRandomValue data feature r =
     (case field_values data feature of
        Inl e \<Rightarrow> Inl e
      | Inr vs \<Rightarrow>
          (case (Math_min vs, Math_max vs) of
             (Some lo, Some hi) \<Rightarrow> Inr (Some (lo + r * (hi - lo)))
           | _ \<Rightarrow> Inr None))"

text \<open>\<^verbatim>\<open>point[feature]\<close> inside the two filters of \<open>buildTree\<close>.\<close>

fun field_of :: "point option \<Rightarrow> nat \<Rightarrow> real option" where
  "field_of None feature = None"
| "field_of (Some p) feature = js_index p feature"

text \<open>
  \<open>buildTree\<close>. The first argument is \<^verbatim>\<open>this.maxDepth\<close>; the last is the draw
  counter, returned advanced, with the tree or with the exception. The feature is
  drawn first, then the split value, then the left subtree is built, then the right
  one. In \<^verbatim>\<open>Math.floor(Math.random() * data[0].length)\<close> the draw is made before
  \<^verbatim>\<open>data[0].length\<close> is read, so an \<^verbatim>\<open>undefined\<close> first entry raises after one
  draw; \<open>getRandomValue\<close> maps over the data before it draws, so an exception of
  it comes after that one draw too.
\<close>

function buildTree ::
  "nat \<Rightarrow> (nat \<Rightarrow> real) \<Rightarrow> point option list \<Rightarrow> nat \<Rightarrow> nat
     \<Rightarrow> (error \<times> nat) + (itree \<times> nat)" where
  "buildTree maxD rnd data depth i =
     (if length data \<le> 1 \<or> depth \<ge> maxD then Inr (Leaf (length data), i)
      else
        (case hd data of
           None \<Rightarrow> Inl (TypeError, Suc i)
         | Some p0 \<Rightarrow>
             (let feature = nat \<lfloor>rnd i * real (length p0)\<rfloor> in
              case getRandomValue data feature (rnd (Suc i)) of
                Inl e \<Rightarrow> Inl (e, Suc i)
              | Inr splitValue \<Rightarrow>
                  (let left = filter (\<lambda>p. js_lt (field_of p feature) splitValue) data;
                       right = filter (\<lambda>p. js_ge (field_of p feature) splitValue) data
                   in case buildTree maxD rnd left (Suc depth) (Suc (Suc i)) of
                        Inl e \<Rightarrow> Inl e
                      | Inr (l, j) \<Rightarrow>
                          (case buildTree maxD rnd right (Suc depth) j of
                             Inl e \<Rightarrow> Inl e
                           | Inr (r, k) \<Rightarrow> Inr (Node feature splitValue l r, k))))))"
  by pat_completeness auto
termination
  by (relation "measure (\<lambda>(maxD, rnd, data, depth, i). maxD - depth)") auto

declare buildTree.simps [simp del]

text \<open>
  \<open>pathLength\<close>. \<^verbatim>\<open>tree.size <= 1\<close> is false on an inner node (its \<^verbatim>\<open>size\<close> is
  \<^verbatim>\<open>undefined\<close>) and on a leaf of size 2 or more. On such a leaf
  \<^verbatim>\<open>tree.feature\<close> and \<^verbatim>\<open>tree.splitValue\<close> are \<^verbatim>\<open>undefined\<close>, the comparison
  \<^verbatim>\<open>dataPoint[undefined] < undefined\<close> is false, and the else branch calls
  \<open>pathLength\<close> on \<^verbatim>\<open>tree.right\<close>, which is \<^verbatim>\<open>undefined\<close>: reading its
  \<^verbatim>\<open>size\<close> raises a TypeError.
\<close>

fun pathLength :: "point \<Rightarrow> itree \<Rightarrow> error + nat" where
  "pathLength dataPoint (Leaf sz) = (if sz \<le> 1 then Inr 1 else Inl TypeError)"
| "pathLength dataPoint (Node feature splitValue left right) =
     (if js_lt (js_index dataPoint feature) splitValue
      then (case pathLength dataPoint left of Inl e \<Rightarrow> Inl e | Inr n \<Rightarrow> Inr (1 + n))
      else (case pathLength dataPoint right of Inl e \<Rightarrow> Inl e | Inr n \<Rightarrow> Inr (1 + n)))"

text \<open>\<open>c\<close>, the normalisation; \<^verbatim>\<open>Math.log\<close> is the natural logarithm.\<close>

definition c :: "nat \<Rightarrow> real" where
  "c n = (if n \<le> 1 then 1
          else 2 * (ln (real n - 1) + 0.5772) - (2 * (real n - 1) / real n))"

text \<open>\<^verbatim>\<open>this.trees.map(tree => this.pathLength(dataPoint, tree))\<close>.\<close>

fun pathLengths :: "point \<Rightarrow> itree list \<Rightarrow> error + nat list" where
  "pathLengths dataPoint [] = Inr []"
| "pathLengths dataPoint (t # ts) =
     (case pathLength dataPoint t of
        Inl e \<Rightarrow> Inl e
      | Inr n \<Rightarrow> (case pathLengths dataPoint ts of Inl e \<Rightarrow> Inl e | Inr ns \<Rightarrow> Inr (n # ns)))"

text \<open>
  \<open>predict\<close>. The second argument is \<^verbatim>\<open>telemetryData.networkRequests.length\<close>,
  read from the global state when the score is computed. The engine only builds
  forests with \<open>numTrees = 200\<close>; with \<open>numTrees = 0\<close> JavaScript would answer
  \<^verbatim>\<open>NaN\<close>, which a real does not represent.
\<close>

definition predict :: "IsolationForest \<Rightarrow> nat \<Rightarrow> point \<Rightarrow> error + real" where
  "predict f historyLength dataPoint =
     (case pathLengths dataPoint (trees f) of
        Inl e \<Rightarrow> Inl e
      | Inr lens \<Rightarrow>
          (let avgPathLength = real (sum_list lens) / real (numTrees f)
           in Inr (2 powr (- avgPathLength / c historyLength))))"

text \<open>
  \<open>train\<close>: \<^verbatim>\<open>this.trees = []\<close>, then \<open>numTrees\<close> rounds of sample, build, push.
  The forest is updated in place, so when a round raises the forest keeps the trees
  pushed before it; the counter returned is then the one \<open>buildTree\<close> raised at. \<open>train_loop\<close> is the loop with \<open>k\<close> rounds left.
\<close>

fun train_loop ::
  "(nat \<Rightarrow> real) \<Rightarrow> point list \<Rightarrow> nat \<Rightarrow> IsolationForest \<Rightarrow> nat \<Rightarrow> error option \<times> IsolationForest \<times> nat" where
  "train_loop rnd data 0 f i = (None, f, i)"
| "train_loop rnd data (Suc k) f i =
     (let (sample, j) = getRandomSample rnd data (sampleSize f) i in
      case buildTree (maxDepth f) rnd sample 0 j of
        Inl (e, j') \<Rightarrow> (Some e, f, j')
      | Inr (t, j') \<Rightarrow> train_loop rnd data k (f\<lparr>trees := trees f @ [t]\<rparr>) j')"

definition train ::
  "(nat \<Rightarrow> real) \<Rightarrow> point list \<Rightarrow> IsolationForest \<Rightarrow> nat \<Rightarrow> error option \<times> IsolationForest \<times> nat" where
  "train rnd data f i = train_loop rnd data (numTrees f) (f\<lparr>trees := []\<rparr>) i"

section \<open>Strings and the host's parsers\<close>

text \<open>
  A string is a list of characters; \<open>length\<close> is the script's \<^verbatim>\<open>.length\<close> for
  text whose code units are below 256.
  \<open>split_on sep s\<close> is \<^verbatim>\<open>s.split(sep)\<close> for a one-character separator: it never
  returns an empty array.
\<close>

fun split_on :: "char \<Rightarrow> string \<Rightarrow> string list" where
  "split_on sep [] = [[]]"
| "split_on sep (x # xs) =
     (if x = sep then [] # split_on sep xs
      else (case split_on sep xs of
              [] \<Rightarrow> [[x]]
            | w # ws \<Rightarrow> (x # w) # ws))"

text \<open>\<^verbatim>\<open>url.split("?")[0]\<close> and \<^verbatim>\<open>url.split("?")[1] || ""\<close>.\<close>

definition base_of :: "string \<Rightarrow> string" where
  "base_of u = hd (split_on (CHR ''?'') u)"

definition query_of :: "string \<Rightarrow> string" where
  "query_of u = (case js_index (split_on (CHR ''?'') u) 1 of None \<Rightarrow> [] | Some q \<Rightarrow> q)"

text \<open>
  \<^verbatim>\<open>JSON.stringify\<close> of a string: the text between double quotes, with the quote, the
  backslash and the control characters escaped.
\<close>

definition hex_digit :: "nat \<Rightarrow> char" where
  "hex_digit n = ''0123456789abcdef'' ! (n mod 16)"

definition quote_char :: "char \<Rightarrow> string" where
  "quote_char ch =
     (if ch = CHR 0x08 then [CHR 0x5C, CHR ''b'']
      else if ch = CHR 0x09 then [CHR 0x5C, CHR ''t'']
      else if ch = CHR 0x0A then [CHR 0x5C, CHR ''n'']
      else if ch = CHR 0x0C then [CHR 0x5C, CHR ''f'']
      else if ch = CHR 0x0D then [CHR 0x5C, CHR ''r'']
      else if ch = CHR 0x22 then [CHR 0x5C, CHR 0x22]
      else if ch = CHR 0x5C then [CHR 0x5C, CHR 0x5C]
      else if (of_char ch :: nat) < 32
        then [CHR 0x5C, CHR ''u'', CHR ''0'', CHR ''0'',
              hex_digit (of_char ch div 16), hex_digit (of_char ch)]
      else [ch])"

definition JSON_stringify :: "string \<Rightarrow> string" where
  "JSON_stringify s = CHR 0x22 # concat (map quote_char s) @ [CHR 0x22]"

text \<open>
  What the script reads of a \<^verbatim>\<open>URL\<close> object (\<open>searchParams\<close> is the text
  \<^verbatim>\<open>parsedUrl.searchParams.toString()\<close>), and the three regular expressions of
  \<open>extractIdentifiers\<close>. The URL parser, the query-string parser and the regular
  expression engine belong to the host: the model takes them as parameters.
  \<open>new_URL\<close> is \<open>None\<close> where \<^verbatim>\<open>new URL(url)\<close> raises; \<open>new_URLSearchParams\<close>
  gives the entries of \<^verbatim>\<open>new URLSearchParams(q)\<close> in order; \<open>String_match\<close> is
  \<^verbatim>\<open>data.match(pattern)\<close>, \<open>None\<close> for \<^verbatim>\<open>null\<close>.
\<close>

record URL =
  href :: string
  hostname :: string
  pathname :: string
  searchParams :: string

datatype pattern = UUID | LongToken | IPv4

record host =
  new_URL :: "string \<Rightarrow> URL option"
  new_URLSearchParams :: "string \<Rightarrow> (string \<times> string) list"
  String_match :: "string \<Rightarrow> pattern \<Rightarrow> string list option"

definition isValidUrl :: "host \<Rightarrow> string \<Rightarrow> bool" where
  "isValidUrl h u = (case new_URL h u of None \<Rightarrow> False | Some _ \<Rightarrow> True)"

section \<open>The telemetry store\<close>

text \<open>
  The request descriptor: \<^verbatim>\<open>options\<close> may be absent, and so may each of its
  members. \<open>headers\<close> is an object: an association list with distinct keys.
\<close>

record options =
  req_method :: "string option"
  headers :: "(string \<times> string) list option"
  body :: "string option"

record telemetry =
  networkRequests :: "point list"
  isolationForest :: "IsolationForest option"
  totalRuns :: nat
  repetitiveRequests :: "string \<rightharpoonup> string set"
  falsePositives :: "string list"
  falseNegatives :: "string list"
  anomalyScores :: "real list"
  lastRetrainTime :: int
  requestFrequency :: "string \<rightharpoonup> nat"

text \<open>\<open>initializeTelemetryData\<close>; the argument is \<^verbatim>\<open>Date.now()\<close>.\<close>

definition initializeTelemetryData :: "int \<Rightarrow> telemetry" where
  "initializeTelemetryData t0 =
     \<lparr>networkRequests = [], isolationForest = None, totalRuns = 0,
      repetitiveRequests = Map.empty, falsePositives = [], falseNegatives = [],
      anomalyScores = [], lastRetrainTime = t0, requestFrequency = Map.empty\<rparr>"

section \<open>Feature extraction\<close>

text \<open>\<^verbatim>\<open>(headers[name] || "").length\<close>.\<close>

definition header_length :: "(string \<times> string) list \<Rightarrow> string \<Rightarrow> nat" where
  "header_length hs name = (case map_of hs name of None \<Rightarrow> 0 | Some v \<Rightarrow> length v)"

text \<open>
  \<open>extractFeatures\<close>. \<^verbatim>\<open>new URL(url)\<close> raises on a malformed URL. The body
  defaults to the empty string and is serialised before its length is taken.
\<close>

definition extractFeatures ::
  "host \<Rightarrow> telemetry \<Rightarrow> string \<Rightarrow> options option \<Rightarrow> error + point" where
  "extractFeatures h t u opts =
     (let hdrs = (case opts of None \<Rightarrow> []
                  | Some o' \<Rightarrow> (case headers o' of None \<Rightarrow> [] | Some hs \<Rightarrow> hs));
          bdy = (case opts of None \<Rightarrow> []
                 | Some o' \<Rightarrow> (case body o' of None \<Rightarrow> [] | Some b \<Rightarrow> b))
      in case new_URL h u of
           None \<Rightarrow> Inl TypeError
         | Some parsedUrl \<Rightarrow>
             Inr [real (length u),
                  real (case opts of None \<Rightarrow> 0
                        | Some o' \<Rightarrow> (case req_method o' of None \<Rightarrow> 0 | Some m \<Rightarrow> length m)),
                  real (length (JSON_stringify bdy)),
                  real (length hdrs),
                  real (header_length hdrs ''Content-Type''),
                  real (header_length hdrs ''Authorization''),
                  real (header_length hdrs ''User-Agent''),
                  real (length (hostname parsedUrl)),
                  real (length (split_on (CHR ''/'') (pathname parsedUrl))),
                  real (length (searchParams parsedUrl)),
                  real (case requestFrequency t (base_of (href parsedUrl)) of
                          None \<Rightarrow> 0 | Some n \<Rightarrow> n)])"

section \<open>Threshold, identifiers, and the analysis of one request\<close>

text \<open>
  \<open>calculateDynamicThreshold\<close>: \<^verbatim>\<open>[...scores].sort((a, b) => a - b)\<close> is the
  ascending sort; the index is \<^verbatim>\<open>Math.floor(0.95 * sortedScores.length)\<close>.
\<close>

definition calculateDynamicThreshold :: "real list \<Rightarrow> real" where
  "calculateDynamicThreshold scores =
     (if length scores = 0 then 0.8
      else (let sortedScores = sort scores;
                index = nat \<lfloor>0.95 * real (length sortedScores)\<rfloor>
            in sortedScores ! index))"

text \<open>
  \<open>extractIdentifiers\<close>: the matches of the three patterns in order, then
  \<^verbatim>\<open>[...new Set(identifiers)]\<close>, which keeps the first occurrence of each.
\<close>

fun dedup :: "'a list \<Rightarrow> 'a list" where
  "dedup [] = []"
| "dedup (x # xs) = x # filter (\<lambda>y. y \<noteq> x) (dedup xs)"

definition extractIdentifiers :: "host \<Rightarrow> string \<Rightarrow> string list" where
  "extractIdentifiers h data =
     dedup (concat (map (\<lambda>p. case String_match h data p of None \<Rightarrow> [] | Some ms \<Rightarrow> ms)
                        [UUID, LongToken, IPv4]))"

text \<open>
  One intercepted request: the URL, the options, the clock \<^verbatim>\<open>Date.now()\<close> read at
  the retrain test, and the values \<^verbatim>\<open>Math.random()\<close> returns during the call.
  The request id is \<^verbatim>\<open>'req-'\<close> and nine base-36 digits of the first draw; the
  model keeps the draw.
\<close>

record call =
  url :: string
  opts :: "options option"
  now :: int
  random :: "nat \<Rightarrow> real"

datatype finding =
    AnomalousRequest real string real real
  | RepetitiveRequest real string
  | IdentifiersDetected real string "string list"

text \<open>
  What one call of \<open>analyzeNetworkRequest\<close> leaves behind: the global
  \<^verbatim>\<open>telemetryData\<close>, the lines given to \<open>logAnomaly\<close>, whether
  \<open>saveTelemetryData\<close> was called, and the exception the outer \<^verbatim>\<open>catch\<close>
  swallowed, if any. The function itself returns nothing and never raises.
\<close>

record outcome =
  state :: telemetry
  logged :: "finding list"
  saved :: bool
  caught :: "error option"

text \<open>Lines 149-150: push, then shift when the length exceeds 10000.\<close>

definition push_request :: "telemetry \<Rightarrow> point \<Rightarrow> telemetry" where
  "push_request t features =
     (let rs = networkRequests t @ [features]
      in t\<lparr>networkRequests := (if length rs > 10000 then tl rs else rs)\<rparr>)"

text \<open>Lines 153-154: the frequency of \<^verbatim>\<open>url.split("?")[0]\<close>.\<close>

definition track_frequency :: "telemetry \<Rightarrow> string \<Rightarrow> telemetry" where
  "track_frequency t u =
     (let baseUrl = base_of u
      in t\<lparr>requestFrequency := (requestFrequency t)
              (baseUrl \<mapsto> (case requestFrequency t baseUrl of None \<Rightarrow> 0 | Some n \<Rightarrow> n) + 1)\<rparr>)"

text \<open>
  Lines 157-162. The new forest is stored first and trained in place; the retrain
  time is written after \<open>train\<close> has returned.
\<close>

definition must_retrain :: "telemetry \<Rightarrow> int \<Rightarrow> bool" where
  "must_retrain t currentTime =
     (length (networkRequests t) \<ge> 100 \<and>
      (isolationForest t = None \<or> currentTime - lastRetrainTime t > 3600000))"

definition retrain :: "telemetry \<Rightarrow> call \<Rightarrow> nat \<Rightarrow> error option \<times> telemetry" where
  "retrain t cl i =
     (if must_retrain t (now cl) then
        (case train (random cl) (networkRequests t) (new_IsolationForest 200 512 15) i of
           (Some e, f, _) \<Rightarrow> (Some e, t\<lparr>isolationForest := Some f\<rparr>)
         | (None, f, _) \<Rightarrow> (None, t\<lparr>isolationForest := Some f, lastRetrainTime := now cl\<rparr>))
      else (None, t))"

text \<open>Lines 165-175: score, push the score, shift above 1000, compare with the threshold.\<close>

definition score_request ::
  "telemetry \<Rightarrow> string \<Rightarrow> point \<Rightarrow> real \<Rightarrow> error + (telemetry \<times> finding list)" where
  "score_request t u features requestId =
     (case isolationForest t of
        None \<Rightarrow> Inr (t, [])
      | Some f \<Rightarrow>
          (case predict f (length (networkRequests t)) features of
             Inl e \<Rightarrow> Inl e
           | Inr anomalyScore \<Rightarrow>
               (let ss = anomalyScores t @ [anomalyScore];
                    ss' = (if length ss > 1000 then tl ss else ss);
                    dynamicThreshold = calculateDynamicThreshold ss'
                in Inr (t\<lparr>anomalyScores := ss'\<rparr>,
                        if anomalyScore > dynamicThreshold
                        then [AnomalousRequest requestId u anomalyScore dynamicThreshold]
                        else []))))"

text \<open>
  Lines 177-188. \<^verbatim>\<open>Array.from(params.entries()).sort().toString()\<close>: the default
  sort compares the entries as strings (key, comma, value) by code units and is
  stable; \<^verbatim>\<open>toString\<close> joins them with commas.
\<close>

definition entry_string :: "string \<times> string \<Rightarrow> string" where
  "entry_string e = fst e @ '','' @ snd e"

fun join_comma :: "string list \<Rightarrow> string" where
  "join_comma [] = []"
| "join_comma [x] = x"
| "join_comma (x # xs) = x @ '','' @ join_comma xs"

definition paramHash :: "(string \<times> string) list \<Rightarrow> string" where
  "paramHash entries = join_comma (map entry_string (sort_key entry_string entries))"

definition detect_repetitive ::
  "host \<Rightarrow> telemetry \<Rightarrow> string \<Rightarrow> real \<Rightarrow> telemetry \<times> finding list" where
  "detect_repetitive h t u requestId =
     (let baseRequestUrl = base_of u;
          seen = (case repetitiveRequests t baseRequestUrl of None \<Rightarrow> {} | Some s \<Rightarrow> s);
          hash = paramHash (new_URLSearchParams h (query_of u))
      in if hash \<in> seen
         then (t\<lparr>repetitiveRequests := (repetitiveRequests t)(baseRequestUrl \<mapsto> seen)\<rparr>,
               [RepetitiveRequest requestId u])
         else (t\<lparr>repetitiveRequests := (repetitiveRequests t)(baseRequestUrl \<mapsto> insert hash seen)\<rparr>,
               []))"

text \<open>
  Lines 191-195: the body, serialised when it is truthy (a non-empty string), is
  scanned for identifiers.
\<close>

definition detect_identifiers :: "host \<Rightarrow> string \<Rightarrow> options option \<Rightarrow> real \<Rightarrow> finding list" where
  "detect_identifiers h u os requestId =
     (let bdy = (case os of None \<Rightarrow> []
                 | Some o' \<Rightarrow> (case body o' of None \<Rightarrow> []
                              | Some b \<Rightarrow> if b = [] then [] else JSON_stringify b));
          identifiers = extractIdentifiers h bdy
      in if length identifiers > 0 then [IdentifiersDetected requestId u identifiers] else [])"

text \<open>
  \<open>analyzeNetworkRequest\<close>: one \<^verbatim>\<open>try\<close> around the whole body, with an empty
  \<^verbatim>\<open>catch\<close>. The state is global and updated in place, so what was written before
  an exception stays written. \<open>generateRequestId\<close> makes draw 0; training starts at
  draw 1.
\<close>

definition analyzeNetworkRequest :: "host \<Rightarrow> telemetry \<Rightarrow> call \<Rightarrow> outcome" where
  "analyzeNetworkRequest h t cl =
     (if \<not> isValidUrl h (url cl)
      then \<lparr>state = t, logged = [], saved = False, caught = None\<rparr>
      else
        (let requestId = random cl 0 in
         case extractFeatures h t (url cl) (opts cl) of
           Inl e \<Rightarrow> \<lparr>state = t, logged = [], saved = False, caught = Some e\<rparr>
         | Inr features \<Rightarrow>
             (let t1 = push_request t features;
                  t2 = track_frequency t1 (url cl)
              in case retrain t2 cl 1 of
                   (Some e, t3) \<Rightarrow> \<lparr>state = t3, logged = [], saved = False, caught = Some e\<rparr>
                 | (None, t3) \<Rightarrow>
                     (case score_request t3 (url cl) features requestId of
                        Inl e \<Rightarrow> \<lparr>state = t3, logged = [], saved = False, caught = Some e\<rparr>
                      | Inr (t4, log1) \<Rightarrow>
                          (let (t5, log2) = detect_repetitive h t4 (url cl) requestId;
                               log3 = detect_identifiers h (url cl) (opts cl) requestId
                           in \<lparr>state = t5, logged = log1 @ log2 @ log3,
                               saved = True, caught = None\<rparr>)))))"

text \<open>A run of the engine: the requests are analysed one after the other on the shared state.\<close>

fun analyze_all :: "host \<Rightarrow> telemetry \<Rightarrow> call list \<Rightarrow> telemetry" where
  "analyze_all h t [] = t"
| "analyze_all h t (cl # cls) = analyze_all h (state (analyzeNetworkRequest h t cl)) cls"

section \<open>A sample host\<close>

text \<open>
  The host's parsers on the few URLs the worked examples use, as a browser answers:
  \<^verbatim>\<open>new URL("https://example.com").href\<close> is \<^verbatim>\<open>"https://example.com/"\<close> (the
  empty path of an http(s) URL is normalised to a slash), and a string with no scheme
  is rejected. No body of the examples matches an identifier pattern.
\<close>

definition sample_URL :: "string \<Rightarrow> URL option" where
  "sample_URL u =
     (if u = ''https://example.com''
        then Some \<lparr>href = ''https://example.com/'', hostname = ''example.com'',
                   pathname = ''/'', searchParams = []\<rparr>
      else if u = ''https://example.com?a=1''
        then Some \<lparr>href = ''https://example.com/?a=1'', hostname = ''example.com'',
                   pathname = ''/'', searchParams = ''a=1''\<rparr>
      else if u = ''https://example.com?a=2''
        then Some \<lparr>href = ''https://example.com/?a=2'', hostname = ''example.com'',
                   pathname = ''/'', searchParams = ''a=2''\<rparr>
      else if u = ''https://example.com/api''
        then Some \<lparr>href = ''https://example.com/api'', hostname = ''example.com'',
                   pathname = ''/api'', searchParams = []\<rparr>
      else None)"

definition sample_params :: "string \<Rightarrow> (string \<times> string) list" where
  "sample_params q =
     (if q = ''a=1'' then [(''a'', ''1'')]
      else if q = ''a=2'' then [(''a'', ''2'')]
      else [])"

definition sample_host :: host where
  "sample_host =
     \<lparr>new_URL = sample_URL, new_URLSearchParams = sample_params,
      String_match = (\<lambda>data p. None)\<rparr>"

section \<open>Routing of a dataset through a tree\<close>

text \<open>
  The walk of \<open>pathLength\<close> sends a point to the left child when its value at the
  node's feature is below the split value and to the right child otherwise.
  \<open>leaf_sizes_ok t ps\<close>: every leaf of \<open>t\<close> records the number of points of \<open>ps\<close>
  that this walk routes to it. \<open>height\<close> is the longest root-to-leaf path in edges.
\<close>

definition goes_left :: "nat \<Rightarrow> real option \<Rightarrow> point \<Rightarrow> bool" where
  "goes_left feature splitValue p = js_lt (js_index p feature) splitValue"

fun leaf_sizes_ok :: "itree \<Rightarrow> point list \<Rightarrow> bool" where
  "leaf_sizes_ok (Leaf sz) ps = (sz = length ps)"
| "leaf_sizes_ok (Node feature splitValue l r) ps =
     (leaf_sizes_ok l (filter (goes_left feature splitValue) ps) \<and>
      leaf_sizes_ok r (filter (\<lambda>p. \<not> goes_left feature splitValue p) ps))"

fun height :: "itree \<Rightarrow> nat" where
  "height (Leaf sz) = 0"
| "height (Node feature splitValue l r) = Suc (max (height l) (height r))"

text \<open>
  A request with no options, made at time 0 while the generator keeps answering 0.
\<close>

definition sample_call :: "string \<Rightarrow> call" where
  "sample_call u = \<lparr>url = u, opts = None, now = 0, random = (\<lambda>k. 0)\<rparr>"

section \<open>Reachable states and the log of a run\<close>

text \<open>
  \<open>engine_inv\<close> holds of the initial state and is kept by every analysis: the
  history holds eleven-field vectors, and a stored model is the engine's forest, fully
  built, trained when the history held 100 entries or more.
\<close>

definition engine_inv :: "telemetry \<Rightarrow> bool" where
  "engine_inv t =
     ((\<forall>p\<in>set (networkRequests t). length p = 11) \<and>
      (case isolationForest t of
         None \<Rightarrow> True
       | Some f \<Rightarrow> length (networkRequests t) \<ge> 100 \<and> numTrees f = 200
            \<and> sampleSize f = 512 \<and> maxDepth f = 15 \<and> length (trees f) = 200))"

fun is_anomaly :: "finding \<Rightarrow> bool" where
  "is_anomaly (AnomalousRequest rid u score threshold) = True"
| "is_anomaly (RepetitiveRequest rid u) = False"
| "is_anomaly (IdentifiersDetected rid u ids) = False"

fun is_repetition :: "finding \<Rightarrow> bool" where
  "is_repetition (AnomalousRequest rid u score threshold) = False"
| "is_repetition (RepetitiveRequest rid u) = True"
| "is_repetition (IdentifiersDetected rid u ids) = False"

text \<open>Everything logged during a run.\<close>

fun logged_all :: "host \<Rightarrow> telemetry \<Rightarrow> call list \<Rightarrow> finding list" where
  "logged_all h t [] = []"
| "logged_all h t (cl # cls) =
     logged (analyzeNetworkRequest h t cl)
       @ logged_all h (state (analyzeNetworkRequest h t cl)) cls"

text \<open>
  The parameter signature of a URL, and the signatures recorded so far for its base
  URL (none when the base URL has no entry yet).
\<close>

definition signature_of :: "host \<Rightarrow> string \<Rightarrow> string" where
  "signature_of h u = paramHash (new_URLSearchParams h (query_of u))"

definition seen_signatures :: "telemetry \<Rightarrow> string \<Rightarrow> string set" where
  "seen_signatures t u = (case repetitiveRequests t (base_of u) of None \<Rightarrow> {} | Some s \<Rightarrow> s)"

text \<open>
  A run of 99 requests to one base URL: one with the query \<^verbatim>\<open>a=1\<close>, then 98 with the
  query \<^verbatim>\<open>a=2\<close>; and the state it leaves.
\<close>

definition sample_run :: "call list" where
  "sample_run = sample_call ''https://example.com?a=1''
                  # replicate 98 (sample_call ''https://example.com?a=2'')"

definition sample_state :: telemetry where
  "sample_state = analyze_all sample_host (initializeTelemetryData 0) sample_run"

text \<open>The state after the first \<open>k + 1\<close> requests of \<open>sample_run\<close>, in closed form.\<close>

definition run_state :: "nat \<Rightarrow> telemetry" where
  "run_state k =
     \<lparr>networkRequests = replicate (Suc k) [23, 0, 2, 0, 0, 0, 0, 11, 2, 3, 0],
      isolationForest = None, totalRuns = 0,
      repetitiveRequests =
        [''https://example.com'' \<mapsto> (if k = 0 then {''a,1''} else {''a,2'', ''a,1''})],
      falsePositives = [], falseNegatives = [],
      anomalyScores = [], lastRetrainTime = 0,
      requestFrequency = [''https://example.com'' \<mapsto> Suc k]\<rparr>"

text \<open>
  The walk of a point through a tree, stated apart from \<open>pathLength\<close>: the number of
  edges from the root to the leaf the point is routed to, and the size stored in that
  leaf.
\<close>

fun edges :: "point \<Rightarrow> itree \<Rightarrow> nat" where
  "edges p (Leaf sz) = 0"
| "edges p (Node feature splitValue l r) =
     Suc (if goes_left feature splitValue p then edges p l else edges p r)"

fun reached_size :: "point \<Rightarrow> itree \<Rightarrow> nat" where
  "reached_size p (Leaf sz) = sz"
| "reached_size p (Node feature splitValue l r) =
     (if goes_left feature splitValue p then reached_size p l else reached_size p r)"


section \<open>The dynamic threshold\<close>

lemma floor95_lt: "n > 0 \<Longrightarrow> nat \<lfloor>0.95 * real n\<rfloor> < n"
proof -
  assume pos: "n > 0"
  define x where "x = 0.95 * real n"
  have "x < real_of_int (int n)" using pos by (simp add: x_def)
  then have "\<lfloor>x\<rfloor> < int n" by (simp only: floor_less_iff)
  then have "nat \<lfloor>x\<rfloor> < n" using pos by linarith
  then show ?thesis by (simp only: x_def)
qed

text \<open>
  Claim C6. On the empty score history the threshold is the default 0.8; otherwise it
  is the element at index \<open>\<lfloor>0.95 \<times> length\<rfloor>\<close> of the history sorted ascending.
  The sorted history is stated by its specification: any ascending list \<open>ys\<close> with the
  same elements and multiplicities as the history. The index is always within it.
\<close>

theorem threshold_percentile:
  assumes "sorted ys" and "mset ys = mset scores"
  shows "calculateDynamicThreshold scores =
           (if scores = [] then 0.8 else ys ! nat \<lfloor>0.95 * real (length scores)\<rfloor>)
         \<and> (scores \<noteq> [] \<longrightarrow> nat \<lfloor>0.95 * real (length scores)\<rfloor> < length ys)"
proof -
  have ys: "sort scores = ys"
    using assms by (simp add: properties_for_sort)
  have len: "length ys = length scores"
    using assms(2) by (metis size_mset)
  show ?thesis
    using ys len floor95_lt [of "length scores"]
    by (auto simp: calculateDynamicThreshold_def Let_def)
qed

theorem threshold_percentile_witness:
  "sorted [0.1, 0.5, 0.9 :: real] \<and> mset [0.1, 0.5, 0.9 :: real] = mset [0.5, 0.9, 0.1]
   \<and> calculateDynamicThreshold [0.5, 0.9, 0.1] = 0.9"
proof -
  have s: "sorted [0.1, 0.5, 0.9 :: real]" by simp
  have m: "mset [0.1, 0.5, 0.9 :: real] = mset [0.5, 0.9, 0.1]" by (simp add: add.commute)
  have i: "nat \<lfloor>0.95 * real (length [0.5, 0.9, 0.1 :: real])\<rfloor> = 2"
    by (simp add: floor_eq_iff)
  show ?thesis
    using s m threshold_percentile [OF s m] i by simp
qed

section \<open>The body-size feature\<close>

lemma quote_char_nonempty: "length (quote_char ch) \<ge> 1"
  by (simp add: quote_char_def)

lemma length_concat_quote: "length (concat (map quote_char s)) \<ge> length s"
proof (induction s)
  case Nil
  then show ?case by simp
next
  case (Cons a s)
  then show ?case using quote_char_nonempty [of a] by simp
qed

lemma length_JSON_stringify: "real (length s) + 2 \<le> real (length (JSON_stringify s))"
  using length_concat_quote [of s] by (simp add: JSON_stringify_def)

lemma JSON_stringify_empty: "JSON_stringify [] = [CHR 0x22, CHR 0x22]"
  by (simp add: JSON_stringify_def)

text \<open>
  Claim C10. Whenever feature extraction returns a vector, it has eleven fields and
  the third one (index 2) is the length of the JSON serialisation of the body: it is 2
  when there are no options, no body or an empty body (the two quotes of the
  serialised empty string), never 0, and for any other body it is the length of the
  serialised text, at least two more than the length of the raw text.
\<close>

theorem body_feature_serialised_length:
  assumes "extractFeatures h t u os = Inr features"
  shows "length features = 11
     \<and> (case os of
          None \<Rightarrow> features ! 2 = 2
        | Some o' \<Rightarrow>
           (case body o' of
              None \<Rightarrow> features ! 2 = 2
            | Some b \<Rightarrow> features ! 2 = real (length (JSON_stringify b))
                  \<and> (if b = [] then features ! 2 = 2
                      else features ! 2 \<ge> real (length b) + 2)))"
proof -
  obtain parsedUrl where "new_URL h u = Some parsedUrl"
    using assms by (auto simp: extractFeatures_def Let_def split: option.splits)
  then show ?thesis
    using assms length_JSON_stringify
    by (auto simp: extractFeatures_def Let_def JSON_stringify_empty split: option.splits)
qed

lemma sample_features_no_options:
  "extractFeatures sample_host (initializeTelemetryData 0) ''https://example.com'' None
     = Inr [19, 0, 2, 0, 0, 0, 0, 11, 2, 0, 0]"
  by (simp add: extractFeatures_def sample_host_def sample_URL_def initializeTelemetryData_def
      JSON_stringify_def header_length_def base_of_def)

theorem body_feature_serialised_length_witness:
  "extractFeatures sample_host (initializeTelemetryData 0) ''https://example.com'' None
     = Inr [19, 0, 2, 0, 0, 0, 0, 11, 2, 0, 0]
   \<and> [19, 0, 2, 0, 0, 0, 0, 11, 2, 0, 0 :: real] ! 2 = 2"
  using body_feature_serialised_length [OF sample_features_no_options]
    sample_features_no_options by simp

section \<open>Tree construction\<close>

lemma random_index_lt:
  assumes "0 \<le> r" "r < 1" "n > 0"
  shows "nat \<lfloor>r * real n\<rfloor> < n"
proof -
  have "r * real n < real_of_int (int n)"
    using assms by (simp add: mult_less_cancel_right2)
  then have "\<lfloor>r * real n\<rfloor> < int n" by (simp only: floor_less_iff)
  then show ?thesis using assms(3) by linarith
qed

lemma field_values_Some:
  "\<forall>p\<in>set ps. f < length p \<Longrightarrow>
     field_values (map Some ps) f = Inr (map (\<lambda>p. Some (p ! f)) ps)"
  by (induction ps) (auto simp: js_index_def)

lemma Math_min_Some:
  "vs \<noteq> [] \<Longrightarrow> Math_min (map Some vs) = Some (Min (set vs))"
proof (induction vs)
  case Nil
  then show ?case by simp
next
  case (Cons a vs)
  show ?case
  proof (cases vs)
    case Nil
    then show ?thesis by simp
  next
    case (Cons b ws)
    then have "Math_min (map Some vs) = Some (Min (set vs))"
      using Cons.IH by simp
    then show ?thesis using Cons by (simp add: min.commute)
  qed
qed

lemma Math_max_Some:
  "vs \<noteq> [] \<Longrightarrow> Math_max (map Some vs) = Some (Max (set vs))"
proof (induction vs)
  case Nil
  then show ?case by simp
next
  case (Cons a vs)
  show ?case
  proof (cases vs)
    case Nil
    then show ?thesis by simp
  next
    case (Cons b ws)
    then have "Math_max (map Some vs) = Some (Max (set vs))"
      using Cons.IH by simp
    then show ?thesis using Cons by (simp add: max.commute)
  qed
qed

lemma getRandomValue_Some:
  assumes "ps \<noteq> []" and "\<forall>p\<in>set ps. f < length p"
  shows "getRandomValue (map Some ps) f r =
           Inr (Some (Min ((\<lambda>p. p ! f) ` set ps)
                      + r * (Max ((\<lambda>p. p ! f) ` set ps) - Min ((\<lambda>p. p ! f) ` set ps))))"
proof -
  have vs: "map (\<lambda>p. Some (p ! f)) ps = map Some (map (\<lambda>p. p ! f) ps)" by simp
  have ne: "map (\<lambda>p. p ! f) ps \<noteq> []" using assms(1) by simp
  show ?thesis
    unfolding getRandomValue_def field_values_Some [OF assms(2)] vs
    using Math_min_Some [OF ne] Math_max_Some [OF ne] by simp
qed

lemma filter_left_Some:
  assumes "\<forall>p\<in>set ps. f < length p"
  shows "filter (\<lambda>p. js_lt (field_of p f) sv) (map Some ps)
           = map Some (filter (goes_left f sv) ps)"
  by (induction ps) (auto simp: goes_left_def)

lemma filter_right_Some:
  assumes "\<forall>p\<in>set ps. f < length p"
  shows "filter (\<lambda>p. js_ge (field_of p f) (Some v)) (map Some ps)
           = map Some (filter (\<lambda>p. \<not> goes_left f (Some v) p) ps)"
  using assms by (induction ps) (auto simp: goes_left_def js_index_def)


lemma buildTree_leaf:
  "length data \<le> 1 \<or> depth \<ge> maxD \<Longrightarrow> buildTree maxD rnd data depth i = Inr (Leaf (length data), i)"
  by (subst buildTree.simps) simp

lemma buildTree_node:
  assumes big: "length ps > 1" and deep: "depth < maxD"
    and len: "\<forall>p\<in>set ps. length p = n" and n: "n > 0"
    and r: "0 \<le> rnd i" "rnd i < 1"
  defines "f \<equiv> nat \<lfloor>rnd i * real n\<rfloor>"
  defines "lo \<equiv> Min ((\<lambda>p. p ! f) ` set ps)"
  defines "hi \<equiv> Max ((\<lambda>p. p ! f) ` set ps)"
  defines "sv \<equiv> Some (lo + rnd (Suc i) * (hi - lo))"
  shows "buildTree maxD rnd (map Some ps) depth i =
     (case buildTree maxD rnd (map Some (filter (goes_left f sv) ps)) (Suc depth) (Suc (Suc i)) of
        Inl e \<Rightarrow> Inl e
      | Inr (l, j) \<Rightarrow>
          (case buildTree maxD rnd (map Some (filter (\<lambda>p. \<not> goes_left f sv p) ps)) (Suc depth) j of
             Inl e \<Rightarrow> Inl e
           | Inr (r, k) \<Rightarrow> Inr (Node f sv l r, k)))"
proof -
  have ne: "ps \<noteq> []" using big by auto
  then obtain p0 rest where ps: "ps = p0 # rest" by (cases ps) auto
  have p0: "length p0 = n" using len ps by simp
  have flt: "f < n" unfolding f_def using random_index_lt [OF r n] .
  have inr: "\<forall>p\<in>set ps. f < length p" using len flt by simp
  have v: "getRandomValue (map Some ps) f (rnd (Suc i)) = Inr sv"
    unfolding sv_def lo_def hi_def using getRandomValue_Some [OF ne inr] .
  have hd: "hd (map Some ps) = Some p0" using ps by simp
  show ?thesis
    apply (subst buildTree.simps)
    using big deep
    apply (simp only: hd length_map p0 option.case Let_def f_def [symmetric] v sum.case
        filter_left_Some [OF inr])
    apply (simp add: sv_def filter_right_Some [OF inr] cong: sum.case_cong prod.case_cong)
    done
qed


lemma buildTree_total:
  assumes rnd: "random_ok rnd" and n: "n > 0"
  shows "\<forall>p\<in>set ps. length p = n \<Longrightarrow>
     \<exists>t j. buildTree maxD rnd (map Some ps) depth i = Inr (t, j)
           \<and> leaf_sizes_ok t ps \<and> height t \<le> maxD - depth"
proof (induction "maxD - depth" arbitrary: depth ps i)
  case 0
  then show ?case by (simp add: buildTree_leaf)
next
  case (Suc k)
  show ?case
  proof (cases "length ps \<le> 1")
    case True
    then show ?thesis by (simp add: buildTree_leaf)
  next
    case False
    define f where "f = nat \<lfloor>rnd i * real n\<rfloor>"
    define sv where "sv = Some (Min ((\<lambda>p. p ! f) ` set ps)
        + rnd (Suc i) * (Max ((\<lambda>p. p ! f) ` set ps) - Min ((\<lambda>p. p ! f) ` set ps)))"
    define ls where "ls = filter (goes_left f sv) ps"
    define rs where "rs = filter (\<lambda>p. \<not> goes_left f sv p) ps"
    have big: "length ps > 1" using False by simp
    have deep: "depth < maxD" using Suc.hyps(2) by simp
    have r: "0 \<le> rnd i" "rnd i < 1" using rnd by (simp_all add: random_ok_def)
    have k: "k = maxD - Suc depth" using Suc.hyps(2) by simp
    have lsn: "\<forall>p\<in>set ls. length p = n" and rsn: "\<forall>p\<in>set rs. length p = n"
      using Suc.prems by (simp_all add: ls_def rs_def)
    obtain l j where l: "buildTree maxD rnd (map Some ls) (Suc depth) (Suc (Suc i)) = Inr (l, j)"
      "leaf_sizes_ok l ls" "height l \<le> maxD - Suc depth"
      using Suc.hyps(1) [OF k lsn] by blast
    obtain r' j' where r': "buildTree maxD rnd (map Some rs) (Suc depth) j = Inr (r', j')"
      "leaf_sizes_ok r' rs" "height r' \<le> maxD - Suc depth"
      using Suc.hyps(1) [OF k rsn] by blast
    have "buildTree maxD rnd (map Some ps) depth i = Inr (Node f sv l r', j')"
      using buildTree_node [where rnd = rnd and i = i, OF big deep Suc.prems n r] l(1) r'(1)
      by (simp add: f_def sv_def ls_def rs_def)
    moreover have "leaf_sizes_ok (Node f sv l r') ps"
      using l(2) r'(2) by (simp add: ls_def rs_def)
    moreover have "height (Node f sv l r') \<le> maxD - depth"
      using l(3) r'(3) deep by simp
    ultimately show ?thesis by blast
  qed
qed

lemma buildTree_degenerate:
  assumes rnd: "random_ok rnd" and n: "n > 0" and len: "\<forall>p\<in>set ps. length p = n"
    and big: "length ps > 1" and deep: "depth < maxD"
    and same: "\<forall>p\<in>set ps. p ! nat \<lfloor>rnd i * real n\<rfloor> = a"
  shows "\<exists>r j. buildTree maxD rnd (map Some ps) (Suc depth) (Suc (Suc i)) = Inr (r, j)
     \<and> buildTree maxD rnd (map Some ps) depth i
          = Inr (Node (nat \<lfloor>rnd i * real n\<rfloor>) (Some a) (Leaf 0) r, j)"
proof -
  define f where "f = nat \<lfloor>rnd i * real n\<rfloor>"
  have r: "0 \<le> rnd i" "rnd i < 1" using rnd by (simp_all add: random_ok_def)
  have ne: "set ps \<noteq> {}" using big by auto
  have "\<forall>p\<in>set ps. p ! f = a" using same by (simp add: f_def)
  then have "(\<lambda>p. p ! f) ` set ps = (\<lambda>p. a) ` set ps" by (intro image_cong) auto
  then have img: "(\<lambda>p. p ! f) ` set ps = {a}"
    using ne by (simp add: image_constant_conv)
  have sv: "Some (Min ((\<lambda>p. p ! f) ` set ps)
        + rnd (Suc i) * (Max ((\<lambda>p. p ! f) ` set ps) - Min ((\<lambda>p. p ! f) ` set ps))) = Some a"
    by (simp add: img)
  have ls: "filter (goes_left f (Some a)) ps = []"
    using same len random_index_lt [OF r n]
    by (auto simp: filter_empty_conv goes_left_def js_index_def f_def)
  have rs: "filter (\<lambda>p. \<not> goes_left f (Some a) p) ps = ps"
    using ls by (simp add: filter_empty_conv filter_id_conv)
  obtain t j where t: "buildTree maxD rnd (map Some ps) (Suc depth) (Suc (Suc i)) = Inr (t, j)"
    using buildTree_total [OF rnd n len] by blast
  have "buildTree maxD rnd (map Some ps) depth i = Inr (Node f (Some a) (Leaf 0) t, j)"
    using buildTree_node [where rnd = rnd and i = i, OF big deep len n r] t
    by (simp add: f_def [symmetric] sv ls rs buildTree_leaf)
  then show ?thesis using t by (simp add: f_def)
qed


text \<open>
  Claim C7. \<open>buildTree\<close> is a total function: its recursion is well-founded on
  \<open>maxDepth - depth\<close>, for every dataset and every depth bound. On a dataset of
  feature vectors of one positive length \<open>n\<close>, with the random draws in \<open>[0, 1)\<close>, it
  never raises and returns a tree no higher than \<open>maxDepth - depth\<close> in which every
  leaf records the number of points of the dataset routed to it. In the degenerate
  case, where two or more points all have the value \<open>a\<close> at the drawn feature, the
  split value is \<open>a\<close>, the left partition is empty (the leaf of size 0) and the right
  subtree is the tree built from the whole dataset one level down, so that only the
  depth bound ends the recursion.
\<close>

theorem buildTree_terminates_leaf_sizes:
  assumes "random_ok rnd" and "n > 0" and "\<forall>p\<in>set ps. length p = n"
  shows "(\<exists>t j. buildTree maxD rnd (map Some ps) depth i = Inr (t, j)
            \<and> leaf_sizes_ok t ps \<and> height t \<le> maxD - depth)
     \<and> (length ps > 1 \<and> depth < maxD \<and> (\<forall>p\<in>set ps. p ! nat \<lfloor>rnd i * real n\<rfloor> = a) \<longrightarrow>
          (\<exists>r j. buildTree maxD rnd (map Some ps) (Suc depth) (Suc (Suc i)) = Inr (r, j)
            \<and> buildTree maxD rnd (map Some ps) depth i
                 = Inr (Node (nat \<lfloor>rnd i * real n\<rfloor>) (Some a) (Leaf 0) r, j)))"
  using buildTree_total [OF assms] buildTree_degenerate [OF assms] by blast

theorem buildTree_terminates_leaf_sizes_witness:
  "buildTree 1 (\<lambda>k. 0) (map Some [[1, 2], [1, 5]]) 0 0
      = Inr (Node 0 (Some 1) (Leaf 0) (Leaf 2), 2)
   \<and> leaf_sizes_ok (Node 0 (Some 1) (Leaf 0) (Leaf 2)) [[1, 2], [1, 5]]
   \<and> height (Node 0 (Some 1) (Leaf 0) (Leaf 2)) \<le> 1 - 0"
proof -
  have r: "random_ok (\<lambda>k. 0)" by (simp add: random_ok_def)
  have n: "(0::nat) < 2" by simp
  have len: "\<forall>p\<in>set [[1, 2], [1, 5 :: real]]. length p = 2" by simp
  have same: "length [[1, 2], [1, 5 :: real]] > 1 \<and> (0::nat) < 1
      \<and> (\<forall>p\<in>set [[1, 2], [1, 5 :: real]]. p ! nat \<lfloor>(\<lambda>k. 0 :: real) 0 * real (2::nat)\<rfloor> = 1)"
    by simp
  have leaf: "buildTree 1 (\<lambda>k. 0) (map Some [[1, 2], [1, 5]]) (Suc 0) (Suc (Suc 0)) = Inr (Leaf 2, 2)"
    by (simp add: buildTree_leaf)
  from buildTree_terminates_leaf_sizes [OF r n len, of 1 0 0 1] same leaf
  have b: "buildTree 1 (\<lambda>k. 0) (map Some [[1, 2], [1, 5]]) 0 0
      = Inr (Node 0 (Some 1) (Leaf 0) (Leaf 2), 2)"
    by auto
  from buildTree_terminates_leaf_sizes [OF r n len, of 1 0 0 1] b
  show ?thesis by auto
qed

section \<open>Training\<close>

lemma getRandomSample_Some:
  assumes "data \<noteq> []" and "random_ok rnd"
  shows "\<exists>qs. getRandomSample rnd data k i = (map Some qs, i + k)
            \<and> length qs = k \<and> set qs \<subseteq> set data"
proof (induction k arbitrary: i)
  case 0
  then show ?case by simp
next
  case (Suc k)
  obtain qs where qs: "getRandomSample rnd data k (Suc i) = (map Some qs, Suc i + k)"
    "length qs = k" "set qs \<subseteq> set data"
    using Suc [of "Suc i"] by blast
  define idx where "idx = nat \<lfloor>rnd i * real (length data)\<rfloor>"
  have "0 \<le> rnd i" "rnd i < 1" using assms(2) by (simp_all add: random_ok_def)
  then have idx: "idx < length data"
    unfolding idx_def using random_index_lt assms(1) by simp
  have "getRandomSample rnd data (Suc k) i = (map Some (data ! idx # qs), i + Suc k)"
    using qs(1) idx by (simp add: idx_def [symmetric] js_index_def)
  moreover have "length (data ! idx # qs) = Suc k" using qs(2) by simp
  moreover have "set (data ! idx # qs) \<subseteq> set data" using qs(3) idx by simp
  ultimately show ?case by blast
qed

lemma getRandomSample_empty:
  "getRandomSample rnd [] k i = (replicate k None, i + k)"
  by (induction k arbitrary: i) (simp_all add: js_index_def)

lemma train_loop_total:
  assumes rnd: "random_ok rnd" and n: "n > 0" and ne: "data \<noteq> []"
    and len: "\<forall>p\<in>set data. length p = n"
  shows "\<exists>ts j. train_loop rnd data k f i = (None, f\<lparr>trees := trees f @ ts\<rparr>, j)
            \<and> length ts = k \<and> (\<forall>t\<in>set ts. height t \<le> maxDepth f)"
proof (induction k arbitrary: f i)
  case 0
  then show ?case by simp
next
  case (Suc k)
  obtain qs where qs: "getRandomSample rnd data (sampleSize f) i = (map Some qs, i + sampleSize f)"
    "set qs \<subseteq> set data"
    using getRandomSample_Some [OF ne rnd] by blast
  have qlen: "\<forall>p\<in>set qs. length p = n" using qs(2) len by auto
  obtain t j where t: "buildTree (maxDepth f) rnd (map Some qs) 0 (i + sampleSize f) = Inr (t, j)"
    "height t \<le> maxDepth f"
    using buildTree_total [OF rnd n qlen, where maxD = "maxDepth f" and depth = 0
        and i = "i + sampleSize f"] by auto
  obtain ts j' where ts:
    "train_loop rnd data k (f\<lparr>trees := trees f @ [t]\<rparr>) j
       = (None, f\<lparr>trees := trees f @ t # ts\<rparr>, j')"
    "length ts = k" "\<forall>t\<in>set ts. height t \<le> maxDepth f"
    using Suc [of "f\<lparr>trees := trees f @ [t]\<rparr>" j] by auto
  have "train_loop rnd data (Suc k) f i = (None, f\<lparr>trees := trees f @ (t # ts)\<rparr>, j')"
    using qs(1) t(1) ts(1) by simp
  moreover have "length (t # ts) = Suc k" using ts(2) by simp
  moreover have "\<forall>u\<in>set (t # ts). height u \<le> maxDepth f" using t(2) ts(3) by simp
  ultimately show ?case by blast
qed

lemma train_total:
  assumes rnd: "random_ok rnd" and n: "n > 0" and ne: "data \<noteq> []"
    and len: "\<forall>p\<in>set data. length p = n"
  shows "\<exists>ts j. train rnd data f i = (None, f\<lparr>trees := ts\<rparr>, j)
            \<and> length ts = numTrees f \<and> (\<forall>t\<in>set ts. height t \<le> maxDepth f)"
  using train_loop_total [OF assms, of "numTrees f" "f\<lparr>trees := []\<rparr>" i]
  by (simp add: train_def)

lemma train_empty_raises:
  assumes "numTrees f \<ge> 1" and "sampleSize f \<ge> 2" and "maxDepth f \<ge> 1"
  shows "train rnd [] f i = (Some TypeError, f\<lparr>trees := []\<rparr>, Suc (i + sampleSize f))"
proof -
  obtain k where k: "numTrees f = Suc k" using assms(1) by (cases "numTrees f") auto
  obtain s where s: "sampleSize f = Suc (Suc s)"
    using assms(2) by (metis Suc_le_D numeral_2_eq_2 Suc_le_mono)
  have "buildTree (maxDepth f) rnd (replicate (sampleSize f) None) 0 (i + sampleSize f)
      = Inl (TypeError, Suc (i + sampleSize f))"
    using assms(3) by (subst buildTree.simps) (simp add: s)
  then show ?thesis
    by (simp add: train_def k getRandomSample_empty)
qed

lemma buildTree_same_raises:
  assumes rnd: "random_ok rnd" and n: "length p > 0" and m: "m \<ge> 2"
  shows "buildTree maxD rnd (map Some (replicate m p)) depth i = Inr (t, j)
           \<Longrightarrow> pathLength p t = Inl TypeError"
proof (induction "maxD - depth" arbitrary: depth i t j)
  case 0
  then have "t = Leaf m" by (simp add: buildTree_leaf)
  then show ?case using m by simp
next
  case (Suc k)
  define f where "f = nat \<lfloor>rnd i * real (length p)\<rfloor>"
  have len: "\<forall>q\<in>set (replicate m p). length q = length p" by simp
  have big: "length (replicate m p) > 1" using m by simp
  have deep: "depth < maxD" using Suc.hyps(2) by simp
  have same: "\<forall>q\<in>set (replicate m p). q ! nat \<lfloor>rnd i * real (length p)\<rfloor> = p ! f"
    by (simp add: f_def)
  obtain r j' where r:
    "buildTree maxD rnd (map Some (replicate m p)) (Suc depth) (Suc (Suc i)) = Inr (r, j')"
    "buildTree maxD rnd (map Some (replicate m p)) depth i = Inr (Node f (Some (p ! f)) (Leaf 0) r, j')"
    using buildTree_degenerate [OF rnd n len big deep same] by (auto simp: f_def)
  have t: "t = Node f (Some (p ! f)) (Leaf 0) r" using r(2) Suc.prems by simp
  have k: "k = maxD - Suc depth" using Suc.hyps(2) by simp
  have "pathLength p r = Inl TypeError" using Suc.hyps(1) [OF k r(1)] .
  moreover have "\<not> js_lt (js_index p f) (Some (p ! f))"
    by (simp add: js_index_def)
  ultimately show ?case by (simp add: t)
qed

lemma sample_of_same:
  assumes "set qs \<subseteq> set data" and "set data \<subseteq> {p}"
  shows "qs = replicate (length qs) p"
  using assms by (intro replicate_eqI) auto

lemma train_same_raises:
  assumes rnd: "random_ok rnd" and n: "length p > 0" and ne: "data \<noteq> []"
    and same: "set data \<subseteq> {p}"
    and nt: "numTrees f \<ge> 1" and ss: "sampleSize f \<ge> 2"
  shows "\<exists>ts j. train rnd data f i = (None, f\<lparr>trees := ts\<rparr>, j)
            \<and> length ts = numTrees f
            \<and> predict (f\<lparr>trees := ts\<rparr>) N p = Inl TypeError"
proof -
  have len: "\<forall>q\<in>set data. length q = length p" using same by auto
  obtain k where k: "numTrees f = Suc k" using nt by (cases "numTrees f") auto
  define g where "g = f\<lparr>trees := []\<rparr>"
  obtain qs where qs: "getRandomSample rnd data (sampleSize g) i = (map Some qs, i + sampleSize g)"
    "length qs = sampleSize g" "set qs \<subseteq> set data"
    using getRandomSample_Some [OF ne rnd] by blast
  have qrep: "qs = replicate (sampleSize f) p"
    using sample_of_same [OF qs(3) same] qs(2) by (simp add: g_def)
  have qlen: "\<forall>q\<in>set qs. length q = length p" using qs(3) len by auto
  obtain t j where t: "buildTree (maxDepth g) rnd (map Some qs) 0 (i + sampleSize g) = Inr (t, j)"
    using buildTree_total [OF rnd n qlen, where maxD = "maxDepth g" and depth = 0
        and i = "i + sampleSize g"] by auto
  have bad: "pathLength p t = Inl TypeError"
    using buildTree_same_raises [OF rnd n ss] t qrep by simp
  obtain ts j' where ts:
    "train_loop rnd data k (g\<lparr>trees := trees g @ [t]\<rparr>) j
       = (None, g\<lparr>trees := trees g @ [t]\<rparr>\<lparr>trees := trees (g\<lparr>trees := trees g @ [t]\<rparr>) @ ts\<rparr>, j')"
    "length ts = k"
    using train_loop_total [OF rnd n ne len, where k = k and f = "g\<lparr>trees := trees g @ [t]\<rparr>" and i = j]
    by blast
  have "train rnd data f i = (None, f\<lparr>trees := t # ts\<rparr>, j')"
    using qs(1) t ts(1) by (simp add: train_def k g_def [symmetric]) (simp add: g_def)
  moreover have "length (t # ts) = numTrees f" using ts(2) k by simp
  moreover have "predict (f\<lparr>trees := t # ts\<rparr>) N p = Inl TypeError"
    using bad by (simp add: predict_def)
  ultimately show ?thesis by blast
qed

text \<open>
  Claim C4, amended. On every non-empty dataset of feature vectors of one positive
  length, a single point included, \<open>train\<close> raises nothing and leaves a forest of
  exactly \<open>numTrees\<close> trees, each no higher than \<open>maxDepth\<close>: every branch ends by
  the size or the depth condition. On the empty dataset it raises a TypeError as soon
  as the forest asks for one tree, a sample of two and one level of depth, and leaves
  the forest without a tree, after the draws of the first sample and one more (the
  feature draw of the first \<open>buildTree\<close>). The engine's retrain test only passes on a history of 100
  entries or more, so it never trains on the empty dataset.
\<close>

theorem train_degenerate_data:
  assumes "random_ok rnd" and "n > 0" and "data \<noteq> []" and "\<forall>p\<in>set data. length p = n"
  shows "(\<exists>ts j. train rnd data f i = (None, f\<lparr>trees := ts\<rparr>, j)
            \<and> length ts = numTrees f \<and> (\<forall>t\<in>set ts. height t \<le> maxDepth f))
     \<and> (numTrees f \<ge> 1 \<and> sampleSize f \<ge> 2 \<and> maxDepth f \<ge> 1 \<longrightarrow>
          train rnd [] f i = (Some TypeError, f\<lparr>trees := []\<rparr>, Suc (i + sampleSize f)))
     \<and> (must_retrain t currentTime \<longrightarrow> length (networkRequests t) \<ge> 100)"
proof -
  have "must_retrain t currentTime \<longrightarrow> length (networkRequests t) \<ge> 100"
    by (simp add: must_retrain_def)
  then show ?thesis
    using train_total [OF assms] train_empty_raises by blast
qed

theorem train_degenerate_data_witness:
  "\<exists>ts j. train (\<lambda>k. 0) [[19, 0, 2, 0, 0, 0, 0, 11, 2, 0, 0]] (new_IsolationForest 200 512 15) 1
             = (None, (new_IsolationForest 200 512 15)\<lparr>trees := ts\<rparr>, j)
          \<and> length ts = 200"
proof -
  have r: "random_ok (\<lambda>k. 0)" by (simp add: random_ok_def)
  have n: "(0::nat) < 11" by simp
  have ne: "[[19, 0, 2, 0, 0, 0, 0, 11, 2, 0, 0 :: real]] \<noteq> []" by simp
  have len: "\<forall>p\<in>set [[19, 0, 2, 0, 0, 0, 0, 11, 2, 0, 0 :: real]]. length p = 11" by simp
  show ?thesis
    using train_degenerate_data [OF r n ne len, where f = "new_IsolationForest 200 512 15"
        and i = 1 and t = "initializeTelemetryData 0" and currentTime = 0]
    by (auto simp: new_IsolationForest_def)
qed

text \<open>
  The claim as stated fails on the empty dataset: the engine's forest (200 trees,
  samples of 512, depth 15) raises a TypeError there, in its first tree, after 513
  draws (512 for the sample, one for the feature).
\<close>

theorem train_empty_counterexample:
  "train (\<lambda>k. 0) [] (new_IsolationForest 200 512 15) 0
     = (Some TypeError, new_IsolationForest 200 512 15, 513)"
  using train_empty_raises [of "new_IsolationForest 200 512 15" "\<lambda>k. 0" 0]
  by (simp add: new_IsolationForest_def)

section \<open>The steps of one analysis\<close>

lemma isValidUrl_iff: "isValidUrl h u \<longleftrightarrow> (\<exists>parsedUrl. new_URL h u = Some parsedUrl)"
  by (simp add: isValidUrl_def split: option.splits)

lemma extractFeatures_valid:
  "isValidUrl h u \<Longrightarrow> \<exists>features. extractFeatures h t u os = Inr features \<and> length features = 11"
  by (auto simp: isValidUrl_iff extractFeatures_def Let_def)

lemma extractFeatures_Inr_valid: "extractFeatures h t u os = Inr features \<Longrightarrow> isValidUrl h u"
  by (auto simp: isValidUrl_iff extractFeatures_def Let_def split: option.splits)

lemma extractFeatures_length: "extractFeatures h t u os = Inr features \<Longrightarrow> length features = 11"
  by (auto simp: extractFeatures_def Let_def split: option.splits)

lemma push_request_fields [simp]:
  "networkRequests (push_request t x) =
     (if length (networkRequests t) \<ge> 10000 then tl (networkRequests t @ [x])
      else networkRequests t @ [x])"
  "anomalyScores (push_request t x) = anomalyScores t"
  "isolationForest (push_request t x) = isolationForest t"
  "lastRetrainTime (push_request t x) = lastRetrainTime t"
  "repetitiveRequests (push_request t x) = repetitiveRequests t"
  "requestFrequency (push_request t x) = requestFrequency t"
  by (auto simp: push_request_def Let_def)

lemma track_frequency_fields [simp]:
  "networkRequests (track_frequency t u) = networkRequests t"
  "anomalyScores (track_frequency t u) = anomalyScores t"
  "isolationForest (track_frequency t u) = isolationForest t"
  "lastRetrainTime (track_frequency t u) = lastRetrainTime t"
  "repetitiveRequests (track_frequency t u) = repetitiveRequests t"
  by (auto simp: track_frequency_def Let_def)

lemma retrain_fields:
  assumes "retrain t cl i = (e, t')"
  shows "networkRequests t' = networkRequests t" "anomalyScores t' = anomalyScores t"
    "repetitiveRequests t' = repetitiveRequests t" "requestFrequency t' = requestFrequency t"
  using assms by (auto simp: retrain_def split: if_splits prod.splits option.splits)

lemma score_request_fields:
  assumes "score_request t u x rid = Inr (t', lg)"
  shows "networkRequests t' = networkRequests t"
    "isolationForest t' = isolationForest t" "lastRetrainTime t' = lastRetrainTime t"
    "repetitiveRequests t' = repetitiveRequests t" "requestFrequency t' = requestFrequency t"
  using assms by (auto simp: score_request_def Let_def split: option.splits sum.splits)


lemma detect_repetitive_fields:
  assumes "detect_repetitive h t u rid = (t', lg)"
  shows "networkRequests t' = networkRequests t" "anomalyScores t' = anomalyScores t"
    "isolationForest t' = isolationForest t" "lastRetrainTime t' = lastRetrainTime t"
    "requestFrequency t' = requestFrequency t"
  using assms by (auto simp: detect_repetitive_def Let_def split: if_splits)

text \<open>The five ways through \<open>analyzeNetworkRequest\<close>.\<close>

lemma analyze_cases:
  obtains
    (invalid) "\<not> isValidUrl h (url cl)"
      "analyzeNetworkRequest h t cl = \<lparr>state = t, logged = [], saved = False, caught = None\<rparr>"
  | (retrain_raised) features e t3 where
      "extractFeatures h t (url cl) (opts cl) = Inr features"
      "retrain (track_frequency (push_request t features) (url cl)) cl 1 = (Some e, t3)"
      "analyzeNetworkRequest h t cl = \<lparr>state = t3, logged = [], saved = False, caught = Some e\<rparr>"
  | (score_raised) features e t3 where
      "extractFeatures h t (url cl) (opts cl) = Inr features"
      "retrain (track_frequency (push_request t features) (url cl)) cl 1 = (None, t3)"
      "score_request t3 (url cl) features (random cl 0) = Inl e"
      "analyzeNetworkRequest h t cl = \<lparr>state = t3, logged = [], saved = False, caught = Some e\<rparr>"
  | (completed) features t3 t4 log1 t5 log2 where
      "extractFeatures h t (url cl) (opts cl) = Inr features"
      "retrain (track_frequency (push_request t features) (url cl)) cl 1 = (None, t3)"
      "score_request t3 (url cl) features (random cl 0) = Inr (t4, log1)"
      "detect_repetitive h t4 (url cl) (random cl 0) = (t5, log2)"
      "analyzeNetworkRequest h t cl =
         \<lparr>state = t5,
          logged = log1 @ log2 @ detect_identifiers h (url cl) (opts cl) (random cl 0),
          saved = True, caught = None\<rparr>"
proof (cases "isValidUrl h (url cl)")
  case False
  then show ?thesis using invalid by (simp add: analyzeNetworkRequest_def)
next
  case True
  then obtain features where f: "extractFeatures h t (url cl) (opts cl) = Inr features"
    using extractFeatures_valid by blast
  obtain e t3 where r: "retrain (track_frequency (push_request t features) (url cl)) cl 1 = (e, t3)"
    by (cases "retrain (track_frequency (push_request t features) (url cl)) cl 1") auto
  show ?thesis
  proof (cases e)
    case (Some err)
    then show ?thesis
      using retrain_raised [OF f] r True f by (simp add: analyzeNetworkRequest_def Let_def)
  next
    case None
    show ?thesis
    proof (cases "score_request t3 (url cl) features (random cl 0)")
      case (Inl err)
      then show ?thesis
        using score_raised [OF f] r None True f by (simp add: analyzeNetworkRequest_def Let_def)
    next
      case (Inr res)
      obtain t4 log1 where res: "res = (t4, log1)" by (cases res) auto
      obtain t5 log2 where d: "detect_repetitive h t4 (url cl) (random cl 0) = (t5, log2)"
        by (cases "detect_repetitive h t4 (url cl) (random cl 0)") auto
      show ?thesis
        using completed [OF f _ _ d] r None True f Inr res d
        by (simp add: analyzeNetworkRequest_def Let_def)
    qed
  qed
qed

section \<open>Bounded histories\<close>

lemma analyze_networkRequests:
  "networkRequests (state (analyzeNetworkRequest h t cl)) =
     (case extractFeatures h t (url cl) (opts cl) of
        Inl e \<Rightarrow> networkRequests t
      | Inr features \<Rightarrow>
          if length (networkRequests t) \<ge> 10000 then tl (networkRequests t @ [features])
          else networkRequests t @ [features])"
proof (cases h cl t rule: analyze_cases)
  case invalid
  then show ?thesis
    by (auto simp: isValidUrl_iff extractFeatures_def Let_def split: option.splits)
next
  case (retrain_raised features e t3)
  then show ?thesis using retrain_fields(1) [OF retrain_raised(2)] by simp
next
  case (score_raised features e t3)
  then show ?thesis using retrain_fields(1) [OF score_raised(2)] by simp
next
  case (completed features t3 t4 log1 t5 log2)
  then show ?thesis
    using retrain_fields(1) [OF completed(2)] score_request_fields(1) [OF completed(3)]
      detect_repetitive_fields(1) [OF completed(4)]
    by simp
qed








section \<open>The retrain policy\<close>

lemma engine_inv_init: "engine_inv (initializeTelemetryData t0)"
  by (simp add: engine_inv_def initializeTelemetryData_def)

lemma engine_inv_push:
  assumes "engine_inv t" and "length features = 11"
  shows "engine_inv (track_frequency (push_request t features) u)"
proof -
  have "set (tl (networkRequests t @ [features])) \<subseteq> set (networkRequests t @ [features])"
    by (cases "networkRequests t @ [features]") auto
  then have pts: "\<forall>p\<in>set (networkRequests (track_frequency (push_request t features) u)). length p = 11"
    using assms by (auto simp: engine_inv_def)
  have "length (networkRequests (track_frequency (push_request t features) u)) \<ge> length (networkRequests t)
      \<or> length (networkRequests (track_frequency (push_request t features) u)) \<ge> 100"
    by simp
  then show ?thesis
    using assms(1) pts unfolding engine_inv_def
    by (auto split: option.splits)
qed

lemma must_retrain_iff:
  assumes "engine_inv t"
  shows "must_retrain t currentTime \<longleftrightarrow>
     (isolationForest t = None \<and> length (networkRequests t) \<ge> 100)
     \<or> (isolationForest t \<noteq> None \<and> currentTime - lastRetrainTime t > 3600000)"
  using assms by (auto simp: must_retrain_def engine_inv_def split: option.splits)

lemma retrain_inv:
  assumes inv: "engine_inv t" and rnd: "random_ok (random cl)"
  shows "\<exists>t'. retrain t cl i = (None, t') \<and> engine_inv t'
      \<and> (if must_retrain t (now cl)
          then (\<exists>ts j. train (random cl) (networkRequests t) (new_IsolationForest 200 512 15) i
                   = (None, (new_IsolationForest 200 512 15)\<lparr>trees := ts\<rparr>, j)
                 \<and> length ts = 200
                 \<and> t' = t\<lparr>isolationForest := Some ((new_IsolationForest 200 512 15)\<lparr>trees := ts\<rparr>),
                          lastRetrainTime := now cl\<rparr>)
          else t' = t)"
proof (cases "must_retrain t (now cl)")
  case False
  then show ?thesis using inv by (simp add: retrain_def)
next
  case True
  then have big: "length (networkRequests t) \<ge> 100" by (simp add: must_retrain_def)
  then have ne: "networkRequests t \<noteq> []" by auto
  have len: "\<forall>p\<in>set (networkRequests t). length p = 11" using inv by (simp add: engine_inv_def)
  have n: "(0::nat) < 11" by simp
  obtain ts j where ts:
    "train (random cl) (networkRequests t) (new_IsolationForest 200 512 15) i
       = (None, (new_IsolationForest 200 512 15)\<lparr>trees := ts\<rparr>, j)"
    "length ts = numTrees (new_IsolationForest 200 512 15)"
    using train_total [OF rnd n ne len] by blast
  have l: "length ts = 200" using ts(2) by (simp add: new_IsolationForest_def)
  define t' where "t' = t\<lparr>isolationForest := Some ((new_IsolationForest 200 512 15)\<lparr>trees := ts\<rparr>),
                          lastRetrainTime := now cl\<rparr>"
  have "retrain t cl i = (None, t')" using True ts(1) by (simp add: retrain_def t'_def)
  moreover have "engine_inv t'"
    using len big l by (simp add: engine_inv_def t'_def new_IsolationForest_def)
  ultimately show ?thesis using True ts(1) l t'_def by auto
qed

lemma analyze_inv:
  assumes inv: "engine_inv t" and rnd: "random_ok (random cl)"
  shows "engine_inv (state (analyzeNetworkRequest h t cl))"
proof (cases h cl t rule: analyze_cases)
  case invalid
  then show ?thesis using inv by simp
next
  case (retrain_raised features e t3)
  have "engine_inv (track_frequency (push_request t features) (url cl))"
    using engine_inv_push [OF inv extractFeatures_length [OF retrain_raised(1)]] .
  then show ?thesis using retrain_inv [OF _ rnd, of _ 1] retrain_raised(2) by fastforce
next
  case (score_raised features e t3)
  have "engine_inv (track_frequency (push_request t features) (url cl))"
    using engine_inv_push [OF inv extractFeatures_length [OF score_raised(1)]] .
  then show ?thesis using retrain_inv [OF _ rnd, of _ 1] score_raised(2,4) by fastforce
next
  case (completed features t3 t4 log1 t5 log2)
  have "engine_inv (track_frequency (push_request t features) (url cl))"
    using engine_inv_push [OF inv extractFeatures_length [OF completed(1)]] .
  then have "engine_inv t3" using retrain_inv [OF _ rnd, of _ 1] completed(2) by fastforce
  then have "engine_inv t5"
    using score_request_fields(1,2) [OF completed(3)] detect_repetitive_fields(1,3) [OF completed(4)]
    by (auto simp: engine_inv_def split: option.splits)
  then show ?thesis using completed(5) by simp
qed

lemma analyze_all_inv:
  assumes "engine_inv t" and "\<forall>cl\<in>set cls. random_ok (random cl)"
  shows "engine_inv (analyze_all h t cls)"
  using assms
proof (induction cls arbitrary: t)
  case Nil
  then show ?case by simp
next
  case (Cons cl cls)
  then show ?case using analyze_inv [of t cl h] by simp
qed

lemma retrain_small: "length (networkRequests t) < 100 \<Longrightarrow> retrain t cl i = (None, t)"
  by (simp add: retrain_def must_retrain_def)

lemma score_request_no_model:
  "isolationForest t = None \<Longrightarrow> score_request t u x rid = Inr (t, [])"
  by (simp add: score_request_def)

lemma detect_repetitive_no_anomaly:
  "detect_repetitive h t u rid = (t', lg) \<Longrightarrow> filter is_anomaly lg = []"
  by (auto simp: detect_repetitive_def Let_def split: if_splits)

lemma detect_identifiers_no_anomaly: "filter is_anomaly (detect_identifiers h u os rid) = []"
  by (simp add: detect_identifiers_def Let_def)

lemma analyze_no_model:
  assumes "isolationForest t = None" and "length (networkRequests t) < 99"
  shows "isolationForest (state (analyzeNetworkRequest h t cl)) = None
       \<and> filter is_anomaly (logged (analyzeNetworkRequest h t cl)) = []"
proof (cases h cl t rule: analyze_cases)
  case invalid
  then show ?thesis using assms by simp
next
  case (retrain_raised features e t3)
  then show ?thesis using assms(2) retrain_small [of "track_frequency (push_request t features) (url cl)" cl 1]
    by simp
next
  case (score_raised features e t3)
  have "t3 = track_frequency (push_request t features) (url cl)"
    using assms(2) score_raised(2) retrain_small [of "track_frequency (push_request t features) (url cl)" cl 1]
    by simp
  then show ?thesis using score_raised(3) assms(1) by (simp add: score_request_no_model)
next
  case (completed features t3 t4 log1 t5 log2)
  have t3: "t3 = track_frequency (push_request t features) (url cl)"
    using assms(2) completed(2) retrain_small [of "track_frequency (push_request t features) (url cl)" cl 1]
    by simp
  then have "t4 = t3" "log1 = []"
    using completed(3) assms(1) by (simp_all add: score_request_no_model)
  then show ?thesis
    using completed(5) t3 assms(1) detect_repetitive_fields(3) [OF completed(4)]
      detect_repetitive_no_anomaly [OF completed(4)] detect_identifiers_no_anomaly
    by simp
qed

lemma analyze_length_le:
  "length (networkRequests (state (analyzeNetworkRequest h t cl))) \<le> Suc (length (networkRequests t))"
  by (simp add: analyze_networkRequests split: sum.splits)

lemma analyze_length_valid:
  assumes "isValidUrl h (url cl)" and "length (networkRequests t) < 10000"
  shows "length (networkRequests (state (analyzeNetworkRequest h t cl))) = Suc (length (networkRequests t))"
  using assms extractFeatures_valid [OF assms(1), of t "opts cl"]
  by (auto simp: analyze_networkRequests)

lemma analyze_all_no_model:
  assumes "isolationForest t = None" and "length (networkRequests t) + length cls < 100"
  shows "isolationForest (analyze_all h t cls) = None
       \<and> filter is_anomaly (logged_all h t cls) = []
       \<and> length (networkRequests (analyze_all h t cls)) \<le> length (networkRequests t) + length cls"
  using assms
proof (induction cls arbitrary: t)
  case Nil
  then show ?case by simp
next
  case (Cons cl cls)
  define t' where "t' = state (analyzeNetworkRequest h t cl)"
  have small: "length (networkRequests t) < 99" using Cons.prems(2) by simp
  have step: "isolationForest t' = None" "filter is_anomaly (logged (analyzeNetworkRequest h t cl)) = []"
    using analyze_no_model [OF Cons.prems(1) small, of h cl] by (simp_all add: t'_def)
  have le: "length (networkRequests t') \<le> Suc (length (networkRequests t))"
    using analyze_length_le by (simp add: t'_def)
  then have "length (networkRequests t') + length cls < 100" using Cons.prems(2) by simp
  from Cons.IH [OF step(1) this] step(2) le show ?case
    by (simp add: t'_def [symmetric])
qed

lemma analyze_all_length_valid:
  assumes "\<forall>cl\<in>set cls. isValidUrl h (url cl)"
    and "length (networkRequests t) + length cls \<le> 10000"
  shows "length (networkRequests (analyze_all h t cls)) = length (networkRequests t) + length cls"
  using assms
proof (induction cls arbitrary: t)
  case Nil
  then show ?case by simp
next
  case (Cons cl cls)
  have "length (networkRequests (state (analyzeNetworkRequest h t cl))) = Suc (length (networkRequests t))"
    using analyze_length_valid [of h cl t] Cons.prems by simp
  then show ?case using Cons.IH [of "state (analyzeNetworkRequest h t cl)"] Cons.prems by simp
qed

lemma analyze_all_append:
  "analyze_all h t (cls @ cls') = analyze_all h (analyze_all h t cls) cls'"
  by (induction cls arbitrary: t) simp_all

lemma analyze_trains:
  assumes inv: "engine_inv t" and rnd: "random_ok (random cl)" and valid: "isValidUrl h (url cl)"
    and none: "isolationForest t = None" and len: "length (networkRequests t) = 99"
  shows "\<exists>f. isolationForest (state (analyzeNetworkRequest h t cl)) = Some f \<and> length (trees f) = 200"
proof -
  have inv': "engine_inv (state (analyzeNetworkRequest h t cl))"
    using analyze_inv [OF inv rnd] .
  have "isolationForest (state (analyzeNetworkRequest h t cl)) \<noteq> None"
  proof (cases h cl t rule: analyze_cases)
    case invalid
    then show ?thesis using valid by simp
  next
    case (retrain_raised features e t3)
    have "engine_inv (track_frequency (push_request t features) (url cl))"
      using engine_inv_push [OF inv extractFeatures_length [OF retrain_raised(1)]] .
    then show ?thesis using retrain_inv [OF _ rnd, of _ 1] retrain_raised(2) by fastforce
  next
    case (score_raised features e t3)
    define t2 where "t2 = track_frequency (push_request t features) (url cl)"
    have i2: "engine_inv t2"
      unfolding t2_def using engine_inv_push [OF inv extractFeatures_length [OF score_raised(1)]] .
    have "must_retrain t2 (now cl)" using len none by (simp add: must_retrain_def t2_def)
    then have "isolationForest t3 \<noteq> None"
      using retrain_inv [OF i2 rnd, of 1] score_raised(2) by (auto simp: t2_def)
    then show ?thesis using score_raised(4) by simp
  next
    case (completed features t3 t4 log1 t5 log2)
    define t2 where "t2 = track_frequency (push_request t features) (url cl)"
    have i2: "engine_inv t2"
      unfolding t2_def using engine_inv_push [OF inv extractFeatures_length [OF completed(1)]] .
    have "must_retrain t2 (now cl)" using len none by (simp add: must_retrain_def t2_def)
    then have "isolationForest t3 \<noteq> None"
      using retrain_inv [OF i2 rnd, of 1] completed(2) by (auto simp: t2_def)
    then show ?thesis
      using completed(5) score_request_fields(2) [OF completed(3)]
        detect_repetitive_fields(3) [OF completed(4)] by simp
  qed
  then show ?thesis using inv' by (auto simp: engine_inv_def)
qed

lemma analyze_model:
  assumes f: "extractFeatures h t (url cl) (opts cl) = Inr features"
    and r: "retrain (track_frequency (push_request t features) (url cl)) cl 1 = (None, t3)"
  shows "isolationForest (state (analyzeNetworkRequest h t cl)) = isolationForest t3
       \<and> lastRetrainTime (state (analyzeNetworkRequest h t cl)) = lastRetrainTime t3"
proof (cases h cl t rule: analyze_cases)
  case invalid
  then show ?thesis using extractFeatures_Inr_valid [OF f] by simp
next
  case (retrain_raised features' e t3')
  then show ?thesis using f r by simp
next
  case (score_raised features' e t3')
  then show ?thesis using f r by simp
next
  case (completed features' t3' t4 log1 t5 log2)
  then have "t3' = t3" using f r by simp
  then show ?thesis
    using completed(5) score_request_fields(2,3) [OF completed(3)]
      detect_repetitive_fields(3,4) [OF completed(4)] by simp
qed

text \<open>
  Claim C5. In a reachable state (\<open>engine_inv\<close>), with the random draws in
  \<open>[0, 1)\<close>, an analysis whose features were extracted retrains exactly when no model
  is stored and the history, the new vector included, holds 100 entries or more, or a
  model is stored and more than 3600000 ms have passed since the last retrain. A
  retrain trains a new forest of the engine's parameters on the whole current history,
  never raises, and leaves in the state that forest, complete with its 200 trees,
  together with the new retrain time; without a retrain the stored model is untouched.
  Every state of a run stores either no model or a complete one. From the initial
  state, 99 analyses or fewer leave no model and log no anomalous request; when 99
  requests with valid URLs have been analysed, the 100th trains a model.
\<close>

theorem retrain_policy:
  assumes "engine_inv t" and "random_ok (random cl)" and "\<forall>x\<in>set cls. random_ok (random x)"
    and "extractFeatures h t (url cl) (opts cl) = Inr features"
  shows "(must_retrain (track_frequency (push_request t features) (url cl)) (now cl) \<longleftrightarrow>
           (isolationForest t = None \<and> length (networkRequests (push_request t features)) \<ge> 100)
           \<or> (isolationForest t \<noteq> None \<and> now cl - lastRetrainTime t > 3600000))
     \<and> (if must_retrain (track_frequency (push_request t features) (url cl)) (now cl)
         then (\<exists>ts j. train (random cl) (networkRequests (push_request t features))
                        (new_IsolationForest 200 512 15) 1
                   = (None, (new_IsolationForest 200 512 15)\<lparr>trees := ts\<rparr>, j)
                 \<and> length ts = 200
                 \<and> isolationForest (state (analyzeNetworkRequest h t cl))
                     = Some ((new_IsolationForest 200 512 15)\<lparr>trees := ts\<rparr>)
                 \<and> lastRetrainTime (state (analyzeNetworkRequest h t cl)) = now cl)
         else isolationForest (state (analyzeNetworkRequest h t cl)) = isolationForest t
            \<and> lastRetrainTime (state (analyzeNetworkRequest h t cl)) = lastRetrainTime t)
     \<and> (case isolationForest (analyze_all h t cls) of
           None \<Rightarrow> True
         | Some f \<Rightarrow> numTrees f = 200 \<and> length (trees f) = 200)
     \<and> (length cls \<le> 99 \<longrightarrow>
           isolationForest (analyze_all h (initializeTelemetryData t0) cls) = None
           \<and> filter is_anomaly (logged_all h (initializeTelemetryData t0) cls) = [])
     \<and> (length cls = 99 \<and> (\<forall>x\<in>set cls. isValidUrl h (url x)) \<and> isValidUrl h (url cl) \<longrightarrow>
           (\<exists>f. isolationForest (analyze_all h (initializeTelemetryData t0) (cls @ [cl])) = Some f
              \<and> length (trees f) = 200))"
proof -
  define t2 where "t2 = track_frequency (push_request t features) (url cl)"
  have i2: "engine_inv t2"
    unfolding t2_def using engine_inv_push [OF assms(1) extractFeatures_length [OF assms(4)]] .
  have policy: "must_retrain t2 (now cl) \<longleftrightarrow>
           (isolationForest t = None \<and> length (networkRequests (push_request t features)) \<ge> 100)
           \<or> (isolationForest t \<noteq> None \<and> now cl - lastRetrainTime t > 3600000)"
    using must_retrain_iff [OF i2, of "now cl"] by (simp add: t2_def)
  obtain t3 where t3: "retrain t2 cl 1 = (None, t3)"
    "if must_retrain t2 (now cl)
     then (\<exists>ts j. train (random cl) (networkRequests t2) (new_IsolationForest 200 512 15) 1
                   = (None, (new_IsolationForest 200 512 15)\<lparr>trees := ts\<rparr>, j)
                 \<and> length ts = 200
                 \<and> t3 = t2\<lparr>isolationForest := Some ((new_IsolationForest 200 512 15)\<lparr>trees := ts\<rparr>),
                          lastRetrainTime := now cl\<rparr>)
     else t3 = t2"
    using retrain_inv [OF i2 assms(2), of 1] by blast
  have m: "isolationForest (state (analyzeNetworkRequest h t cl)) = isolationForest t3"
    "lastRetrainTime (state (analyzeNetworkRequest h t cl)) = lastRetrainTime t3"
    using analyze_model [OF assms(4) t3(1) [unfolded t2_def]] by simp_all
  have step: "if must_retrain t2 (now cl)
         then (\<exists>ts j. train (random cl) (networkRequests (push_request t features))
                        (new_IsolationForest 200 512 15) 1
                   = (None, (new_IsolationForest 200 512 15)\<lparr>trees := ts\<rparr>, j)
                 \<and> length ts = 200
                 \<and> isolationForest (state (analyzeNetworkRequest h t cl))
                     = Some ((new_IsolationForest 200 512 15)\<lparr>trees := ts\<rparr>)
                 \<and> lastRetrainTime (state (analyzeNetworkRequest h t cl)) = now cl)
         else isolationForest (state (analyzeNetworkRequest h t cl)) = isolationForest t
            \<and> lastRetrainTime (state (analyzeNetworkRequest h t cl)) = lastRetrainTime t"
  proof (cases "must_retrain t2 (now cl)")
    case True
    then obtain ts j where
      "train (random cl) (networkRequests t2) (new_IsolationForest 200 512 15) 1
                   = (None, (new_IsolationForest 200 512 15)\<lparr>trees := ts\<rparr>, j)"
      "length ts = 200"
      "t3 = t2\<lparr>isolationForest := Some ((new_IsolationForest 200 512 15)\<lparr>trees := ts\<rparr>),
                          lastRetrainTime := now cl\<rparr>"
      using t3(2) by auto
    then show ?thesis using True m by (auto simp: t2_def)
  next
    case False
    then have "t3 = t2" using t3(2) by simp
    then show ?thesis using False m by (simp add: t2_def)
  qed
  have complete: "case isolationForest (analyze_all h t cls) of
           None \<Rightarrow> True
         | Some f \<Rightarrow> numTrees f = 200 \<and> length (trees f) = 200"
    using analyze_all_inv [OF assms(1,3), of h]
    by (auto simp: engine_inv_def split: option.splits)
  have before: "isolationForest (analyze_all h (initializeTelemetryData t0) cls) = None
           \<and> filter is_anomaly (logged_all h (initializeTelemetryData t0) cls) = []"
    if "length cls \<le> 99"
    using analyze_all_no_model [of "initializeTelemetryData t0" cls h] that
    by (simp add: initializeTelemetryData_def)
  have hundredth: "\<exists>f. isolationForest (analyze_all h (initializeTelemetryData t0) (cls @ [cl])) = Some f
              \<and> length (trees f) = 200"
    if "length cls = 99" and "\<forall>x\<in>set cls. isValidUrl h (url x)" and "isValidUrl h (url cl)"
  proof -
    define s where "s = analyze_all h (initializeTelemetryData t0) cls"
    have si: "engine_inv s"
      unfolding s_def using analyze_all_inv [OF engine_inv_init assms(3)] .
    have sn: "isolationForest s = None"
      unfolding s_def using before that(1) by simp
    have "length (networkRequests s) = length (networkRequests (initializeTelemetryData t0)) + length cls"
      unfolding s_def using analyze_all_length_valid [OF that(2)] that(1)
      by (simp add: initializeTelemetryData_def)
    then have sl: "length (networkRequests s) = 99"
      using that(1) by (simp add: initializeTelemetryData_def)
    show ?thesis
      using analyze_trains [OF si assms(2) that(3) sn sl]
      by (simp add: analyze_all_append s_def)
  qed
  show ?thesis
    using policy step complete before hundredth unfolding t2_def by blast
qed

lemma sample_call_fields [simp]:
  "url (sample_call u) = u" "opts (sample_call u) = None" "now (sample_call u) = 0"
  "random (sample_call u) = (\<lambda>k. 0)"
  by (simp_all add: sample_call_def)

lemma random_ok_zero: "random_ok (\<lambda>k. 0)"
  by (simp add: random_ok_def)

lemma sample_valid: "isValidUrl sample_host ''https://example.com''"
  by (simp add: isValidUrl_def sample_host_def sample_URL_def)

theorem retrain_policy_witness:
  "\<exists>f. isolationForest (analyze_all sample_host (initializeTelemetryData 0)
           (replicate 99 (sample_call ''https://example.com'') @ [sample_call ''https://example.com'']))
          = Some f
      \<and> length (trees f) = 200"
proof -
  have i: "engine_inv (initializeTelemetryData 0)" by (rule engine_inv_init)
  have r: "random_ok (random (sample_call ''https://example.com''))"
    by (simp add: random_ok_zero)
  have rs: "\<forall>x\<in>set (replicate 99 (sample_call ''https://example.com'')). random_ok (random x)"
    by (simp add: random_ok_zero)
  have e: "extractFeatures sample_host (initializeTelemetryData 0)
      (url (sample_call ''https://example.com'')) (opts (sample_call ''https://example.com''))
     = Inr [19, 0, 2, 0, 0, 0, 0, 11, 2, 0, 0]"
    using sample_features_no_options by simp
  have v: "length (replicate 99 (sample_call ''https://example.com'')) = 99
      \<and> (\<forall>x\<in>set (replicate 99 (sample_call ''https://example.com'')). isValidUrl sample_host (url x))
      \<and> isValidUrl sample_host (url (sample_call ''https://example.com''))"
    by (simp add: sample_valid)
  show ?thesis
    using retrain_policy [OF i r rs e, of 0] v by blast
qed

section \<open>A run that ends in a raised score\<close>

lemma base_of_a1 [simp]: "base_of ''https://example.com?a=1'' = ''https://example.com''"
  by (simp add: base_of_def)

lemma base_of_a2 [simp]: "base_of ''https://example.com?a=2'' = ''https://example.com''"
  by (simp add: base_of_def)

lemma base_of_plain [simp]: "base_of ''https://example.com'' = ''https://example.com''"
  by (simp add: base_of_def)

lemma base_of_slash [simp]: "base_of ''https://example.com/'' = ''https://example.com/''"
  by (simp add: base_of_def)

lemma base_of_href_a1 [simp]: "base_of ''https://example.com/?a=1'' = ''https://example.com/''"
  by (simp add: base_of_def)

lemma base_of_href_a2 [simp]: "base_of ''https://example.com/?a=2'' = ''https://example.com/''"
  by (simp add: base_of_def)

lemma signature_a1 [simp]: "signature_of sample_host ''https://example.com?a=1'' = ''a,1''"
  by (simp add: signature_of_def query_of_def js_index_def sample_host_def sample_params_def
      paramHash_def entry_string_def)

lemma signature_a2 [simp]: "signature_of sample_host ''https://example.com?a=2'' = ''a,2''"
  by (simp add: signature_of_def query_of_def js_index_def sample_host_def sample_params_def
      paramHash_def entry_string_def)

lemma features_a1:
  "requestFrequency t ''https://example.com/'' = None \<Longrightarrow>
   extractFeatures sample_host t ''https://example.com?a=1'' None
     = Inr [23, 0, 2, 0, 0, 0, 0, 11, 2, 3, 0]"
  by (simp add: extractFeatures_def sample_host_def sample_URL_def
      JSON_stringify_def header_length_def)

lemma features_a2:
  "requestFrequency t ''https://example.com/'' = None \<Longrightarrow>
   extractFeatures sample_host t ''https://example.com?a=2'' None
     = Inr [23, 0, 2, 0, 0, 0, 0, 11, 2, 3, 0]"
  by (simp add: extractFeatures_def sample_host_def sample_URL_def
      JSON_stringify_def header_length_def)

lemma valid_a1 [simp]: "isValidUrl sample_host ''https://example.com?a=1''"
  by (simp add: isValidUrl_def sample_host_def sample_URL_def)

lemma valid_a2 [simp]: "isValidUrl sample_host ''https://example.com?a=2''"
  by (simp add: isValidUrl_def sample_host_def sample_URL_def)

lemma detect_identifiers_sample [simp]: "detect_identifiers sample_host u None rid = []"
  by (simp add: detect_identifiers_def extractIdentifiers_def sample_host_def)

lemma detect_repetitive_eq:
  "detect_repetitive h t u rid =
     (t\<lparr>repetitiveRequests := (repetitiveRequests t)
           (base_of u \<mapsto> insert (signature_of h u) (seen_signatures t u))\<rparr>,
      if signature_of h u \<in> seen_signatures t u then [RepetitiveRequest rid u] else [])"
  by (auto simp: detect_repetitive_def Let_def signature_of_def seen_signatures_def insert_absorb)

lemma analyze_small:
  assumes f: "extractFeatures h t (url cl) (opts cl) = Inr features"
    and none: "isolationForest t = None" and small: "length (networkRequests t) < 99"
  shows "analyzeNetworkRequest h t cl =
     \<lparr>state = fst (detect_repetitive h (track_frequency (push_request t features) (url cl))
                      (url cl) (random cl 0)),
      logged = snd (detect_repetitive h (track_frequency (push_request t features) (url cl))
                      (url cl) (random cl 0))
               @ detect_identifiers h (url cl) (opts cl) (random cl 0),
      saved = True, caught = None\<rparr>"
proof -
  define t2 where "t2 = track_frequency (push_request t features) (url cl)"
  have r: "retrain t2 cl 1 = (None, t2)"
    using small by (intro retrain_small) (simp add: t2_def)
  have s: "score_request t2 (url cl) features (random cl 0) = Inr (t2, [])"
    using none by (intro score_request_no_model) (simp add: t2_def)
  show ?thesis
    using extractFeatures_Inr_valid [OF f] f r s
    by (simp add: analyzeNetworkRequest_def Let_def t2_def [symmetric] split: prod.splits)
qed

lemma first_request:
  "analyzeNetworkRequest sample_host (initializeTelemetryData 0) (sample_call ''https://example.com?a=1'')
     = \<lparr>state = run_state 0, logged = [], saved = True, caught = None\<rparr>"
proof -
  have f: "extractFeatures sample_host (initializeTelemetryData 0)
      (url (sample_call ''https://example.com?a=1'')) (opts (sample_call ''https://example.com?a=1''))
     = Inr [23, 0, 2, 0, 0, 0, 0, 11, 2, 3, 0]"
    using features_a1 [of "initializeTelemetryData 0"] by (simp add: initializeTelemetryData_def)
  have n: "isolationForest (initializeTelemetryData 0) = None"
    and l: "length (networkRequests (initializeTelemetryData 0)) < 99"
    by (simp_all add: initializeTelemetryData_def)
  show ?thesis
    unfolding analyze_small [OF f n l]
    by (simp add: detect_repetitive_eq seen_signatures_def Let_def
        initializeTelemetryData_def run_state_def push_request_def track_frequency_def)
qed

lemma next_request:
  assumes "k \<le> 97"
  shows "analyzeNetworkRequest sample_host (run_state k) (sample_call ''https://example.com?a=2'')
     = \<lparr>state = run_state (Suc k),
        logged = (if k = 0 then [] else [RepetitiveRequest 0 ''https://example.com?a=2'']),
        saved = True, caught = None\<rparr>"
proof -
  have f: "extractFeatures sample_host (run_state k)
      (url (sample_call ''https://example.com?a=2'')) (opts (sample_call ''https://example.com?a=2''))
     = Inr [23, 0, 2, 0, 0, 0, 0, 11, 2, 3, 0]"
    using features_a2 [of "run_state k"] by (simp add: run_state_def)
  have n: "isolationForest (run_state k) = None"
    and l: "length (networkRequests (run_state k)) < 99"
    using assms by (simp_all add: run_state_def)
  show ?thesis
  proof (cases "k = 0")
    case True
    then show ?thesis
      unfolding analyze_small [OF f n l]
      by (simp add: detect_repetitive_eq seen_signatures_def Let_def
          run_state_def push_request_def track_frequency_def)
  next
    case False
    then show ?thesis
      unfolding analyze_small [OF f n l]
      using assms
      by (simp add: detect_repetitive_eq seen_signatures_def Let_def
          run_state_def push_request_def track_frequency_def replicate_append_same)
  qed
qed

lemma run_requests:
  "k + m \<le> 98 \<Longrightarrow>
   analyze_all sample_host (run_state k) (replicate m (sample_call ''https://example.com?a=2''))
     = run_state (k + m)"
proof (induction m arbitrary: k)
  case 0
  then show ?case by simp
next
  case (Suc m)
  have "k \<le> 97" using Suc.prems by simp
  then show ?case
    using next_request [of k] Suc.IH [of "Suc k"] Suc.prems by simp
qed

lemma sample_state_eq: "sample_state = run_state 98"
  using run_requests [of 0 98] by (simp add: sample_state_def sample_run_def first_request)

lemma hundredth_request:
  "\<exists>t3. analyzeNetworkRequest sample_host sample_state (sample_call ''https://example.com?a=1'')
          = \<lparr>state = t3, logged = [], saved = False, caught = Some TypeError\<rparr>
      \<and> repetitiveRequests t3 = repetitiveRequests sample_state
      \<and> isolationForest t3 \<noteq> None"
proof -
  define q :: point where "q = [23, 0, 2, 0, 0, 0, 0, 11, 2, 3, 0]"
  define cl where "cl = sample_call ''https://example.com?a=1''"
  define t2 where "t2 = track_frequency (push_request (run_state 98) q) (url cl)"
  define F where "F = new_IsolationForest 200 512 15"
  have f: "extractFeatures sample_host (run_state 98) (url cl) (opts cl) = Inr q"
    using features_a1 [of "run_state 98"] by (simp add: run_state_def q_def cl_def)
  have e: "replicate 100 q = q # replicate 99 q"
    using replicate_Suc [of 99 q] by (simp del: replicate_Suc)
  have h2: "networkRequests t2 = replicate 100 q"
    unfolding e by (simp add: t2_def run_state_def q_def replicate_append_same)
  have m: "must_retrain t2 (now cl)"
    by (simp add: must_retrain_def h2) (simp add: t2_def run_state_def)
  have rnd: "random_ok (random cl)" by (simp add: cl_def random_ok_zero)
  have qn: "length q > 0" by (simp add: q_def)
  have ne: "replicate 100 q \<noteq> []" by simp
  have same: "set (replicate 100 q) \<subseteq> {q}" by simp
  have nt: "numTrees F \<ge> 1" and ss: "sampleSize F \<ge> 2"
    by (simp_all add: F_def new_IsolationForest_def)
  obtain ts j where ts: "train (random cl) (replicate 100 q) F 1 = (None, F\<lparr>trees := ts\<rparr>, j)"
    "predict (F\<lparr>trees := ts\<rparr>) 100 q = Inl TypeError"
    using train_same_raises [OF rnd qn ne same nt ss, of 1 100] by blast
  define t3 where "t3 = t2\<lparr>isolationForest := Some (F\<lparr>trees := ts\<rparr>), lastRetrainTime := now cl\<rparr>"
  have r: "retrain t2 cl 1 = (None, t3)"
    using m ts(1) by (simp add: retrain_def h2 F_def t3_def)
  have s: "score_request t3 (url cl) q (random cl 0) = Inl TypeError"
    using ts(2) by (simp add: score_request_def t3_def h2)
  have "analyzeNetworkRequest sample_host (run_state 98) cl
          = \<lparr>state = t3, logged = [], saved = False, caught = Some TypeError\<rparr>"
    using extractFeatures_Inr_valid [OF f] f r s
    by (simp add: analyzeNetworkRequest_def Let_def t2_def [symmetric])
  moreover have "repetitiveRequests t3 = repetitiveRequests (run_state 98)"
    by (simp add: t3_def t2_def)
  moreover have "isolationForest t3 \<noteq> None" by (simp add: t3_def)
  ultimately show ?thesis by (auto simp: sample_state_eq cl_def)
qed

lemma sample_state_seen:
  "seen_signatures sample_state ''https://example.com?a=1'' = {''a,2'', ''a,1''}"
  by (simp add: sample_state_eq seen_signatures_def run_state_def)

section \<open>One catch around every step\<close>

lemma analyze_raised:
  assumes "caught (analyzeNetworkRequest h t cl) \<noteq> None"
  shows "\<not> saved (analyzeNetworkRequest h t cl) \<and> logged (analyzeNetworkRequest h t cl) = []
       \<and> repetitiveRequests (state (analyzeNetworkRequest h t cl)) = repetitiveRequests t
       \<and> (\<forall>features. extractFeatures h t (url cl) (opts cl) = Inr features \<longrightarrow>
             networkRequests (state (analyzeNetworkRequest h t cl))
               = networkRequests (push_request t features)
           \<and> requestFrequency (state (analyzeNetworkRequest h t cl))
               = requestFrequency (track_frequency t (url cl)))"
proof (cases h cl t rule: analyze_cases)
  case invalid
  then show ?thesis using assms by simp
next
  case (retrain_raised features e t3)
  then show ?thesis
    using retrain_fields [OF retrain_raised(2)]
    by (simp add: track_frequency_def Let_def)
next
  case (score_raised features e t3)
  then show ?thesis
    using retrain_fields [OF score_raised(2)]
    by (simp add: track_frequency_def Let_def)
next
  case (completed features t3 t4 log1 t5 log2)
  then show ?thesis using assms by simp
qed

lemma analyze_completed:
  assumes "caught (analyzeNetworkRequest h t cl) = None" and "isValidUrl h (url cl)"
  shows "\<exists>log1. (\<forall>x\<in>set log1. is_anomaly x)
     \<and> analyzeNetworkRequest h t cl =
         \<lparr>state = (state (analyzeNetworkRequest h t cl)),
          logged = log1
            @ (if signature_of h (url cl) \<in> seen_signatures t (url cl)
               then [RepetitiveRequest (random cl 0) (url cl)] else [])
            @ detect_identifiers h (url cl) (opts cl) (random cl 0),
          saved = True, caught = None\<rparr>
     \<and> repetitiveRequests (state (analyzeNetworkRequest h t cl)) =
         (repetitiveRequests t)
           (base_of (url cl) \<mapsto> insert (signature_of h (url cl)) (seen_signatures t (url cl)))"
proof (cases h cl t rule: analyze_cases)
  case invalid
  then show ?thesis using assms by simp
next
  case (retrain_raised features e t3)
  then show ?thesis using assms by simp
next
  case (score_raised features e t3)
  then show ?thesis using assms by simp
next
  case (completed features t3 t4 log1 t5 log2)
  have r4: "repetitiveRequests t4 = repetitiveRequests t"
    using retrain_fields(3) [OF completed(2)] score_request_fields(4) [OF completed(3)] by simp
  then have s4: "seen_signatures t4 (url cl) = seen_signatures t (url cl)"
    by (simp add: seen_signatures_def)
  have l1: "\<forall>x\<in>set log1. is_anomaly x"
    using completed(3) by (auto simp: score_request_def Let_def split: option.splits sum.splits if_splits)
  have d: "t5 = t4\<lparr>repetitiveRequests := (repetitiveRequests t4)
           (base_of (url cl) \<mapsto> insert (signature_of h (url cl)) (seen_signatures t4 (url cl)))\<rparr>"
    "log2 = (if signature_of h (url cl) \<in> seen_signatures t4 (url cl)
             then [RepetitiveRequest (random cl 0) (url cl)] else [])"
    using completed(4) by (simp_all add: detect_repetitive_eq)
  show ?thesis
    using completed(5) l1 d r4 s4 by auto
qed

lemma detect_identifiers_no_repetition: "filter is_repetition (detect_identifiers h u os rid) = []"
  by (simp add: detect_identifiers_def Let_def)

lemma anomalies_no_repetition: "\<forall>x\<in>set lg. is_anomaly x \<Longrightarrow> filter is_repetition lg = []"
proof (induction lg)
  case Nil
  then show ?case by simp
next
  case (Cons x lg)
  then show ?case by (cases x) auto
qed

lemma seen_mono: "seen_signatures t u \<subseteq> seen_signatures (state (analyzeNetworkRequest h t cl)) u"
proof (cases "caught (analyzeNetworkRequest h t cl) = None \<and> isValidUrl h (url cl)")
  case True
  then show ?thesis
    using analyze_completed [of h t cl] by (auto simp: seen_signatures_def)
next
  case False
  then consider "caught (analyzeNetworkRequest h t cl) \<noteq> None" | "\<not> isValidUrl h (url cl)"
    by auto
  then show ?thesis
  proof cases
    case 1
    then show ?thesis using analyze_raised [of h t cl] by (simp add: seen_signatures_def)
  next
    case 2
    then show ?thesis by (simp add: analyzeNetworkRequest_def)
  qed
qed

lemma seen_mono_all: "seen_signatures t u \<subseteq> seen_signatures (analyze_all h t cls) u"
proof (induction cls arbitrary: t)
  case Nil
  then show ?case by simp
next
  case (Cons cl cls)
  then show ?case using seen_mono [of t u h cl] by (simp, blast)
qed

text \<open>
  Claim C2, amended. An exception raised by a step of an analysis is swallowed by the
  one catch around the whole body: the rest of that analysis is skipped (nothing is
  logged, the signature sets are untouched, \<open>saveTelemetryData\<close> is not called),
  while what was written before the exception stays (the pushed feature vector, the
  incremented frequency). An analysis of a valid URL that raises nothing runs every
  step: it records the signature and calls \<open>saveTelemetryData\<close>. Either way the call
  returns and the next request is analysed from the state it left.
\<close>

theorem raised_step_ends_analysis:
  "(caught (analyzeNetworkRequest h t cl) \<noteq> None \<longrightarrow>
      \<not> saved (analyzeNetworkRequest h t cl) \<and> logged (analyzeNetworkRequest h t cl) = []
      \<and> repetitiveRequests (state (analyzeNetworkRequest h t cl)) = repetitiveRequests t
      \<and> (\<forall>features. extractFeatures h t (url cl) (opts cl) = Inr features \<longrightarrow>
             networkRequests (state (analyzeNetworkRequest h t cl))
               = networkRequests (push_request t features)
           \<and> requestFrequency (state (analyzeNetworkRequest h t cl))
               = requestFrequency (track_frequency t (url cl))))
   \<and> (caught (analyzeNetworkRequest h t cl) = None \<and> isValidUrl h (url cl) \<longrightarrow>
        saved (analyzeNetworkRequest h t cl)
        \<and> signature_of h (url cl) \<in> seen_signatures (state (analyzeNetworkRequest h t cl)) (url cl))
   \<and> analyze_all h t (cl # cls) = analyze_all h (state (analyzeNetworkRequest h t cl)) cls"
proof -
  have "saved (analyzeNetworkRequest h t cl)
        \<and> signature_of h (url cl) \<in> seen_signatures (state (analyzeNetworkRequest h t cl)) (url cl)"
    if ok: "caught (analyzeNetworkRequest h t cl) = None" "isValidUrl h (url cl)"
  proof -
    obtain log1 where
      o: "analyzeNetworkRequest h t cl =
         \<lparr>state = (state (analyzeNetworkRequest h t cl)),
          logged = log1
            @ (if signature_of h (url cl) \<in> seen_signatures t (url cl)
               then [RepetitiveRequest (random cl 0) (url cl)] else [])
            @ detect_identifiers h (url cl) (opts cl) (random cl 0),
          saved = True, caught = None\<rparr>"
      and r: "repetitiveRequests (state (analyzeNetworkRequest h t cl)) =
         (repetitiveRequests t)
           (base_of (url cl) \<mapsto> insert (signature_of h (url cl)) (seen_signatures t (url cl)))"
      using analyze_completed [OF ok] by blast
    have "saved (analyzeNetworkRequest h t cl)" by (subst o) simp
    then show ?thesis using r by (simp add: seen_signatures_def)
  qed
  then show ?thesis using analyze_raised [of h t cl] by simp
qed

theorem raised_step_ends_analysis_witness:
  "\<not> saved (analyzeNetworkRequest sample_host sample_state (sample_call ''https://example.com?a=1''))
   \<and> repetitiveRequests (state (analyzeNetworkRequest sample_host sample_state
          (sample_call ''https://example.com?a=1''))) = repetitiveRequests sample_state"
proof -
  have "caught (analyzeNetworkRequest sample_host sample_state
          (sample_call ''https://example.com?a=1'')) \<noteq> None"
    using hundredth_request by auto
  then show ?thesis
    using raised_step_ends_analysis [of sample_host sample_state
        "sample_call ''https://example.com?a=1''" "[]"]
    by simp
qed

text \<open>
  The claim as stated fails on the 100th request of a run: the model is trained, the
  score raises, and neither the repetitive-request check (the signature was recorded
  by the first request, yet nothing is logged) nor the persistence step runs.
\<close>

theorem later_steps_skipped_counterexample:
  "caught (analyzeNetworkRequest sample_host sample_state (sample_call ''https://example.com?a=1''))
     = Some TypeError
   \<and> saved (analyzeNetworkRequest sample_host sample_state (sample_call ''https://example.com?a=1''))
     = False
   \<and> signature_of sample_host ''https://example.com?a=1''
       \<in> seen_signatures sample_state ''https://example.com?a=1''
   \<and> logged (analyzeNetworkRequest sample_host sample_state (sample_call ''https://example.com?a=1''))
     = []"
  using hundredth_request by (auto simp: sample_state_seen)

section \<open>Repetitive requests\<close>

lemma completed_repetition:
  assumes "caught (analyzeNetworkRequest h t cl) = None" and "isValidUrl h (url cl)"
  shows "filter is_repetition (logged (analyzeNetworkRequest h t cl)) =
           (if signature_of h (url cl) \<in> seen_signatures t (url cl)
            then [RepetitiveRequest (random cl 0) (url cl)] else [])"
    and "seen_signatures (state (analyzeNetworkRequest h t cl)) (url cl)
           = insert (signature_of h (url cl)) (seen_signatures t (url cl))"
proof -
  obtain log1 where l1: "\<forall>x\<in>set log1. is_anomaly x"
    and o: "analyzeNetworkRequest h t cl =
         \<lparr>state = (state (analyzeNetworkRequest h t cl)),
          logged = log1
            @ (if signature_of h (url cl) \<in> seen_signatures t (url cl)
               then [RepetitiveRequest (random cl 0) (url cl)] else [])
            @ detect_identifiers h (url cl) (opts cl) (random cl 0),
          saved = True, caught = None\<rparr>"
    and r: "repetitiveRequests (state (analyzeNetworkRequest h t cl)) =
         (repetitiveRequests t)
           (base_of (url cl) \<mapsto> insert (signature_of h (url cl)) (seen_signatures t (url cl)))"
    using analyze_completed [OF assms] by blast
  have "logged (analyzeNetworkRequest h t cl) = log1
            @ (if signature_of h (url cl) \<in> seen_signatures t (url cl)
               then [RepetitiveRequest (random cl 0) (url cl)] else [])
            @ detect_identifiers h (url cl) (opts cl) (random cl 0)"
    by (subst o) simp
  then show "filter is_repetition (logged (analyzeNetworkRequest h t cl)) =
           (if signature_of h (url cl) \<in> seen_signatures t (url cl)
            then [RepetitiveRequest (random cl 0) (url cl)] else [])"
    using anomalies_no_repetition [OF l1] detect_identifiers_no_repetition by simp
  show "seen_signatures (state (analyzeNetworkRequest h t cl)) (url cl)
           = insert (signature_of h (url cl)) (seen_signatures t (url cl))"
    using r by (simp add: seen_signatures_def)
qed

text \<open>
  What the repetitive-request step does when it is reached, that is in an analysis of
  a valid URL that raises nothing: a repetition is logged exactly when the parameter
  signature is already recorded for the base URL (so a signature not yet recorded, the
  first occurrence or a different one, logs none), and afterwards the signature is
  recorded. Recorded signatures are never removed, so after such an analysis, and
  whatever requests come in between, the next analysis of the same base URL and
  signature that raises nothing logs a repetition.
\<close>

lemma repetition_when_step_reached:
  assumes "caught (analyzeNetworkRequest h t cl) = None" and "isValidUrl h (url cl)"
  shows "filter is_repetition (logged (analyzeNetworkRequest h t cl)) =
           (if signature_of h (url cl) \<in> seen_signatures t (url cl)
            then [RepetitiveRequest (random cl 0) (url cl)] else [])
     \<and> seen_signatures (state (analyzeNetworkRequest h t cl)) (url cl)
           = insert (signature_of h (url cl)) (seen_signatures t (url cl))
     \<and> (caught (analyzeNetworkRequest h (analyze_all h (state (analyzeNetworkRequest h t cl)) cls) cl2)
            = None
         \<and> isValidUrl h (url cl2) \<and> base_of (url cl2) = base_of (url cl)
         \<and> signature_of h (url cl2) = signature_of h (url cl) \<longrightarrow>
           filter is_repetition
             (logged (analyzeNetworkRequest h (analyze_all h (state (analyzeNetworkRequest h t cl)) cls) cl2))
             = [RepetitiveRequest (random cl2 0) (url cl2)])"
proof -
  define t1 where "t1 = state (analyzeNetworkRequest h t cl)"
  define t2 where "t2 = analyze_all h t1 cls"
  have rec: "signature_of h (url cl) \<in> seen_signatures t1 (url cl)"
    using completed_repetition(2) [OF assms] by (simp add: t1_def)
  have "filter is_repetition (logged (analyzeNetworkRequest h t2 cl2))
             = [RepetitiveRequest (random cl2 0) (url cl2)]"
    if ok: "caught (analyzeNetworkRequest h t2 cl2) = None" "isValidUrl h (url cl2)"
      and same: "base_of (url cl2) = base_of (url cl)" "signature_of h (url cl2) = signature_of h (url cl)"
  proof -
    have "seen_signatures t1 (url cl) \<subseteq> seen_signatures t2 (url cl)"
      unfolding t2_def by (rule seen_mono_all)
    moreover have "seen_signatures t2 (url cl2) = seen_signatures t2 (url cl)"
      using same(1) by (simp add: seen_signatures_def)
    ultimately have "signature_of h (url cl2) \<in> seen_signatures t2 (url cl2)"
      using rec same(2) by auto
    then show ?thesis using completed_repetition(1) [OF ok] by simp
  qed
  then show ?thesis
    using completed_repetition [OF assms] unfolding t1_def t2_def by blast
qed

lemma second_request_same:
  "analyzeNetworkRequest sample_host (run_state 0) (sample_call ''https://example.com?a=1'')
     = \<lparr>state = (run_state 1)\<lparr>repetitiveRequests := [''https://example.com'' \<mapsto> {''a,1''}]\<rparr>,
        logged = [RepetitiveRequest 0 ''https://example.com?a=1''],
        saved = True, caught = None\<rparr>"
proof -
  have f: "extractFeatures sample_host (run_state 0)
      (url (sample_call ''https://example.com?a=1'')) (opts (sample_call ''https://example.com?a=1''))
     = Inr [23, 0, 2, 0, 0, 0, 0, 11, 2, 3, 0]"
    using features_a1 [of "run_state 0"] by (simp add: run_state_def)
  have n: "isolationForest (run_state 0) = None"
    and l: "length (networkRequests (run_state 0)) < 99"
    by (simp_all add: run_state_def)
  show ?thesis
    unfolding analyze_small [OF f n l]
    by (simp add: detect_repetitive_eq seen_signatures_def Let_def
        run_state_def push_request_def track_frequency_def)
qed

lemma repetition_first_and_second:
  "filter is_repetition (logged (analyzeNetworkRequest sample_host (initializeTelemetryData 0)
      (sample_call ''https://example.com?a=1''))) = []
   \<and> filter is_repetition (logged (analyzeNetworkRequest sample_host
        (state (analyzeNetworkRequest sample_host (initializeTelemetryData 0)
           (sample_call ''https://example.com?a=1'')))
        (sample_call ''https://example.com?a=1'')))
      = [RepetitiveRequest 0 ''https://example.com?a=1'']"
proof -
  have c: "caught (analyzeNetworkRequest sample_host (initializeTelemetryData 0)
      (sample_call ''https://example.com?a=1'')) = None"
    by (simp add: first_request)
  have v: "isValidUrl sample_host (url (sample_call ''https://example.com?a=1''))" by simp
  have s: "signature_of sample_host (url (sample_call ''https://example.com?a=1''))
      \<notin> seen_signatures (initializeTelemetryData 0) (url (sample_call ''https://example.com?a=1''))"
    by (simp add: seen_signatures_def initializeTelemetryData_def)
  have c2: "caught (analyzeNetworkRequest sample_host
        (analyze_all sample_host (state (analyzeNetworkRequest sample_host (initializeTelemetryData 0)
           (sample_call ''https://example.com?a=1''))) [])
        (sample_call ''https://example.com?a=1'')) = None"
    by (simp add: first_request second_request_same)
  show ?thesis
    using repetition_when_step_reached [OF c v, of "[]" "sample_call ''https://example.com?a=1''"] s c2
    by simp
qed

text \<open>
  On a reachable state, with the draws in \<open>[0, 1)\<close>, the only step that can raise is
  the score.
\<close>

lemma only_score_raises:
  assumes inv: "engine_inv t" and rnd: "random_ok (random cl)"
    and raised: "caught (analyzeNetworkRequest h t cl) = Some e"
  shows "\<exists>features t3. extractFeatures h t (url cl) (opts cl) = Inr features
     \<and> retrain (track_frequency (push_request t features) (url cl)) cl 1 = (None, t3)
     \<and> score_request t3 (url cl) features (random cl 0) = Inl e"
proof (cases h cl t rule: analyze_cases)
  case invalid
  then show ?thesis using raised by simp
next
  case (retrain_raised features e' t3)
  have "engine_inv (track_frequency (push_request t features) (url cl))"
    using engine_inv_push [OF inv extractFeatures_length [OF retrain_raised(1)]] .
  then show ?thesis using retrain_inv [OF _ rnd, of _ 1] retrain_raised(2) by fastforce
next
  case (score_raised features e' t3)
  then show ?thesis using raised by auto
next
  case (completed features t3 t4 log1 t5 log2)
  then show ?thesis using raised by simp
qed

text \<open>
  Claim C8, where the code departs from it. The run \<open>sample_run\<close> starts with a
  request to \<^verbatim>\<open>https://example.com?a=1\<close>, which records the signature \<^verbatim>\<open>a,1\<close>
  for the base URL, and goes on with 98 requests of another signature. The same request
  again, as the 100th, is the second occurrence of its signature: the model is trained,
  the score raises a TypeError at a leaf of size 512, the catch ends the analysis
  before the repetitive-request step, and no repetition is logged.
\<close>

theorem second_occurrence_not_flagged:
  "sample_run ! 0 = sample_call ''https://example.com?a=1''
   \<and> analyze_all sample_host (initializeTelemetryData 0) sample_run = sample_state
   \<and> signature_of sample_host ''https://example.com?a=1''
       \<in> seen_signatures sample_state ''https://example.com?a=1''
   \<and> caught (analyzeNetworkRequest sample_host sample_state (sample_call ''https://example.com?a=1''))
      = Some TypeError
   \<and> filter is_repetition
        (logged (analyzeNetworkRequest sample_host sample_state (sample_call ''https://example.com?a=1'')))
      = []"
proof -
  have "sample_run ! 0 = sample_call ''https://example.com?a=1''"
    by (simp add: sample_run_def)
  moreover have "analyze_all sample_host (initializeTelemetryData 0) sample_run = sample_state"
    by (simp only: sample_state_def)
  moreover have "signature_of sample_host ''https://example.com?a=1''
       \<in> seen_signatures sample_state ''https://example.com?a=1''"
    by (simp add: sample_state_seen)
  moreover have "caught (analyzeNetworkRequest sample_host sample_state
        (sample_call ''https://example.com?a=1'')) = Some TypeError"
    using hundredth_request by auto
  moreover have "filter is_repetition
        (logged (analyzeNetworkRequest sample_host sample_state (sample_call ''https://example.com?a=1'')))
      = []"
    using hundredth_request by auto
  ultimately show ?thesis by simp
qed

section \<open>The frequency feature\<close>

lemma frequency_feature_key:
  assumes "extractFeatures h t u os = Inr features" and "new_URL h u = Some parsedUrl"
  shows "features ! 10 = real (case requestFrequency t (base_of (href parsedUrl)) of
                                 None \<Rightarrow> 0 | Some n \<Rightarrow> n)"
  using assms by (auto simp: extractFeatures_def Let_def)

lemma first_poll:
  "analyzeNetworkRequest sample_host (initializeTelemetryData 0) (sample_call ''https://example.com'')
     = \<lparr>state = (initializeTelemetryData 0)
          \<lparr>networkRequests := [[19, 0, 2, 0, 0, 0, 0, 11, 2, 0, 0]],
           repetitiveRequests := [''https://example.com'' \<mapsto> {[]}],
           requestFrequency := [''https://example.com'' \<mapsto> 1]\<rparr>,
        logged = [], saved = True, caught = None\<rparr>"
proof -
  have f: "extractFeatures sample_host (initializeTelemetryData 0)
      (url (sample_call ''https://example.com'')) (opts (sample_call ''https://example.com''))
     = Inr [19, 0, 2, 0, 0, 0, 0, 11, 2, 0, 0]"
    using sample_features_no_options by simp
  have n: "isolationForest (initializeTelemetryData 0) = None"
    and l: "length (networkRequests (initializeTelemetryData 0)) < 99"
    by (simp_all add: initializeTelemetryData_def)
  have s: "signature_of sample_host ''https://example.com'' = []"
    by (simp add: signature_of_def query_of_def js_index_def sample_host_def sample_params_def
      paramHash_def)
  show ?thesis
    unfolding analyze_small [OF f n l]
    by (simp add: detect_repetitive_eq seen_signatures_def Let_def s
        initializeTelemetryData_def push_request_def track_frequency_def)
qed

text \<open>
  Claim C9, where the code departs from it. The frequency is counted under
  \<^verbatim>\<open>url.split("?")[0]\<close> and read under \<^verbatim>\<open>parsedUrl.href.split("?")[0]\<close>. After
  one request to \<^verbatim>\<open>https://example.com\<close> the map holds 1 for that base URL, yet
  the features of a second request to the same URL end in 0: the parsed \<^verbatim>\<open>href\<close>
  is \<^verbatim>\<open>https://example.com/\<close>, a key that was never written.
\<close>

theorem frequency_feature_other_key:
  "requestFrequency
      (state (analyzeNetworkRequest sample_host (initializeTelemetryData 0)
         (sample_call ''https://example.com'')))
      (base_of ''https://example.com'') = Some 1
   \<and> extractFeatures sample_host
        (state (analyzeNetworkRequest sample_host (initializeTelemetryData 0)
           (sample_call ''https://example.com'')))
        ''https://example.com'' None
      = Inr [19, 0, 2, 0, 0, 0, 0, 11, 2, 0, 0]"
  by (simp add: first_poll)
    (simp add: extractFeatures_def sample_host_def sample_URL_def initializeTelemetryData_def
      JSON_stringify_def header_length_def)

section \<open>Scoring\<close>

lemma pathLength_walk:
  "pathLength p t = (if reached_size p t \<le> 1 then Inr (Suc (edges p t)) else Inl TypeError)"
  by (induction t) (auto simp: goes_left_def)

lemma pathLengths_walk:
  "pathLengths p ts =
     (if \<forall>t\<in>set ts. reached_size p t \<le> 1 then Inr (map (\<lambda>t. Suc (edges p t)) ts)
      else Inl TypeError)"
  by (induction ts) (auto simp: pathLength_walk)

lemma ln2_ge_half: "ln (2::real) > 1 / 2"
proof -
  have "exp (1 / 2) * exp (1 / 2) = exp (1::real)"
    by (simp add: exp_add [symmetric])
  moreover have "exp (1::real) \<le> 3" by (rule exp_le)
  ultimately have "(exp (1 / 2 :: real))\<^sup>2 < 2\<^sup>2"
    by (simp add: power2_eq_square)
  then have "exp (1 / 2 :: real) < 2"
    by (rule power2_less_imp_less) simp
  then have "exp (1 / 2 :: real) < exp (ln 2)" by simp
  then show ?thesis by (simp only: exp_less_cancel_iff)
qed

lemma c_positive: "c n > 0"
proof -
  consider "n \<le> 1" | "n = 2" | "n \<ge> 3" by linarith
  then show ?thesis
  proof cases
    case 1
    then show ?thesis by (simp add: c_def)
  next
    case 2
    then show ?thesis by (simp add: c_def)
  next
    case 3
    then have "real n - 1 \<ge> 2" by simp
    then have "ln (real n - 1) \<ge> ln 2" by simp
    then have l: "ln (real n - 1) > 1 / 2" using ln2_ge_half by linarith
    define x where "x = (real n - 1) / real n"
    define y where "y = ln (real n - 1)"
    have "x < 1" using 3 by (simp add: x_def)
    moreover have "y > 1 / 2" using l by (simp add: y_def)
    ultimately have "2 * (y + 0.5772) - 2 * x > 0" by simp
    then have "2 * (ln (real n - 1) + 0.5772) - (2 * (real n - 1) / real n) > 0"
      by (simp add: x_def y_def)
    then show ?thesis using 3 by (simp add: c_def)
  qed
qed

lemma predict_walk:
  "predict f n p =
     (if \<forall>t\<in>set (trees f). reached_size p t \<le> 1
      then Inr (2 powr (- (real (\<Sum>t\<leftarrow>trees f. Suc (edges p t)) / real (numTrees f)) / c n))
      else Inl TypeError)"
  by (simp add: predict_def pathLengths_walk)

lemma score_range:
  "0 < 2 powr (- (real k / real m) / c n) \<and> 2 powr (- (real k / real m) / c n) \<le> (1::real)"
proof -
  have "- (real k / real m) / c n \<le> 0"
    using c_positive [of n] by (simp add: divide_nonpos_pos)
  then have "2 powr (- (real k / real m) / c n) \<le> (1::real)"
    using powr_mono [of "- (real k / real m) / c n" 0 "2::real"] by simp
  then show ?thesis by simp
qed

text \<open>
  Claim C1, where the code departs from it. The walk of \<open>pathLength\<close> goes left
  when the point's value at the node's feature is below the split value and right
  otherwise, and counts one per edge; but it returns (one more than the edges
  walked) only at a leaf of stored size 0 or 1, and raises a TypeError at a leaf of
  size 2 or more. So \<open>predict\<close> returns \<open>2\<close> to the power
  \<open>- avgPathLength / c n\<close>, a value in \<open>(0, 1]\<close>, with \<open>n\<close> the length of the live
  history, only when no walk ends at such a leaf, and raises otherwise. In the forest
  the engine trains on a history of 100 equal feature vectors every tree ends in a
  leaf of size 512, and scoring that same vector raises whatever the random draws.
\<close>

theorem predict_score_or_raise:
  assumes "random_ok rnd" and "length p = 11"
  shows "pathLength q t = (if reached_size q t \<le> 1 then Inr (Suc (edges q t)) else Inl TypeError)
     \<and> predict f n q =
         (if \<forall>t\<in>set (trees f). reached_size q t \<le> 1
          then Inr (2 powr (- (real (\<Sum>t\<leftarrow>trees f. Suc (edges q t)) / real (numTrees f)) / c n))
          else Inl TypeError)
     \<and> (\<forall>s. 0 < numTrees f \<and> predict f n q = Inr s \<longrightarrow> 0 < s \<and> s \<le> 1)
     \<and> (\<exists>ts j. train rnd (replicate 100 p) (new_IsolationForest 200 512 15) i
                 = (None, (new_IsolationForest 200 512 15)\<lparr>trees := ts\<rparr>, j)
           \<and> length ts = 200
           \<and> predict ((new_IsolationForest 200 512 15)\<lparr>trees := ts\<rparr>) 100 p = Inl TypeError)"
proof -
  have range: "\<forall>s. 0 < numTrees f \<and> predict f n q = Inr s \<longrightarrow> 0 < s \<and> s \<le> 1"
    using score_range [of "\<Sum>t\<leftarrow>trees f. Suc (edges q t)" "numTrees f" n]
    by (auto simp: predict_walk split: if_splits)
  have pos: "length p > 0" using assms(2) by simp
  have ne: "replicate 100 p \<noteq> []" by simp
  have same: "set (replicate 100 p) \<subseteq> {p}" by simp
  have raised: "\<exists>ts j. train rnd (replicate 100 p) (new_IsolationForest 200 512 15) i
                 = (None, (new_IsolationForest 200 512 15)\<lparr>trees := ts\<rparr>, j)
           \<and> length ts = 200
           \<and> predict ((new_IsolationForest 200 512 15)\<lparr>trees := ts\<rparr>) 100 p = Inl TypeError"
    using train_same_raises [OF assms(1) pos ne same, of "new_IsolationForest 200 512 15" i 100]
    by (simp add: new_IsolationForest_def)
  show ?thesis
    using pathLength_walk [of q t] predict_walk [of f n q] range raised by blast
qed

theorem predict_score_or_raise_witness:
  "\<exists>ts j. train (\<lambda>k. 0) (replicate 100 [19, 0, 2, 0, 0, 0, 0, 11, 2, 0, 0])
               (new_IsolationForest 200 512 15) 1
                 = (None, (new_IsolationForest 200 512 15)\<lparr>trees := ts\<rparr>, j)
           \<and> length ts = 200
           \<and> predict ((new_IsolationForest 200 512 15)\<lparr>trees := ts\<rparr>) 100
                 [19, 0, 2, 0, 0, 0, 0, 11, 2, 0, 0] = Inl TypeError"
proof -
  have r: "random_ok (\<lambda>k. 0)" by (simp add: random_ok_def)
  have l: "length [19, 0, 2, 0, 0, 0, 0, 11, 2, 0, 0 :: real] = 11" by simp
  show ?thesis using predict_score_or_raise [OF r l, of _ _ _ _ 1] by blast
qed

end
